theory Spec2Isabelle
  imports Main "HOL-Library.Word"
begin

unbundle bit_operations_syntax

section \<open>The PC1550 keypad emulator (PC1550.h, PC1550.cpp)\<close>

text \<open>
  The class targets the ATmega of the Arduino (PC1550.cpp, comment of line 468): there
  \<open>int\<close> and \<open>unsigned int\<close> are 16 bits wide, \<open>uint16_t\<close> is \<open>unsigned int\<close> (so an
  expression on \<open>uint16_t\<close> operands is evaluated in 16 bits, without promotion),
  \<open>unsigned long\<close> is 32 bits and \<open>char\<close> is one byte. Fixed-width fields are words;
  \<open>+\<close> and \<open>-\<close> on them wrap around as the unsigned C++ operations do.

  Two operations of \<open>processClockCycle\<close> have no defined result in C++: a shift by a
  negative count and the increment of an \<open>int\<close> that holds \<open>INT_MAX\<close>. The model
  returns \<open>None\<close> for a call that reaches one of them.
\<close>

type_synonym u8 = "8 word"
type_synonym u16 = "16 word"
type_synonym u32 = "32 word"

subsection \<open>Hardware interface\<close>

datatype pin_mode = INPUT | OUTPUT

text \<open>The calls into the Arduino core, in the order the code issues them.\<close>

datatype io_event =
    PinMode u8 pin_mode
  | DigitalWrite u8 bool
  | DigitalRead u8
  | Micros
  | DelayMicroseconds nat

text \<open>
  What the environment answers during one call of \<open>processClockCycle\<close>: the three
  line levels read at entry (lines 435-437), the clock value of line 440, the two reads
  of the data line around the settling delay (lines 475 and 481; only taken in the
  keypad-bit branch) and the clock value of line 495 (only taken on a rising edge).
  A level is \<open>True\<close> when \<open>digitalRead\<close> returns \<open>HIGH\<close>.
\<close>

record inputs =
  clock_in :: bool
  data_in :: bool
  pgm_in :: bool
  micros_entry :: u32
  settle_read1 :: bool
  settle_read2 :: bool
  micros_edge :: u32

subsection \<open>The fields of the class\<close>

text \<open>
  The fields of \<open>class PC1550\<close> in the order of PC1550.h. \<open>bKeyReleased\<close> is declared
  there but never initialised, read or written, and is left out. The last two
  components are not fields: \<open>datapin_mode\<close> is the direction of the data pin as last
  set through \<open>pinMode\<close> (the constructor writes \<open>LOW\<close> to the pin, so \<open>OUTPUT\<close> drives
  the line low and \<open>INPUT\<close> lets it float), and \<open>io_log\<close> is the history of calls into
  the Arduino core, oldest first.
\<close>

record PC1550 =
  datapin :: u8
  clockpin :: u8
  pgmpin :: u8
  synchronized :: bool
  controller_bits_read :: u8
  controller_data :: u16
  available_controller_data :: u16
  bStateChanged :: bool
  keypad_bits_read :: u8
  keypad_data :: u8
  available_keypad_data :: u8
  pc16out_data :: u16
  available_pc16out_data :: u16
  key_released_data :: u8
  bKeyPressed :: bool
  iConsecutiveKeyPressCycles :: u8
  last_read :: u32
  last_clock :: bool
  cyclesWithoutKey :: u8
  transmitting :: bool
  keyHoldCycles :: u8
  key_to_send :: u8
  keypad_bits_sent :: u8
  iConsecutiveBeeps :: int
  bTransmissionEnd :: bool
  datapin_mode :: pin_mode
  io_log :: "io_event list"

definition INT_MAX :: int where
  "INT_MAX = 32767"

subsection \<open>Key code table\<close>

definition getKeyChar :: "u8 \<Rightarrow> char" where
  "getKeyChar v =
     (if v = 0b01000001 then CHR ''1''
      else if v = 0b00100001 then CHR ''2''
      else if v = 0b00010001 then CHR ''3''
      else if v = 0b01000010 then CHR ''4''
      else if v = 0b00100010 then CHR ''5''
      else if v = 0b00010010 then CHR ''6''
      else if v = 0b01000100 then CHR ''7''
      else if v = 0b00100100 then CHR ''8''
      else if v = 0b00010100 then CHR ''9''
      else if v = 0b01001000 then CHR ''*''
      else if v = 0b00101000 then CHR ''0''
      else if v = 0b00011000 then CHR ''#''
      else if v = 0b01000000 then CHR ''F''
      else if v = 0b00100000 then CHR ''A''
      else if v = 0b00010000 then CHR ''P''
      else CHR 0x00)"

definition getKeyValue :: "char \<Rightarrow> u8" where
  "getKeyValue key =
     (if key = CHR ''1'' then 0b01000001
      else if key = CHR ''2'' then 0b00100001
      else if key = CHR ''3'' then 0b00010001
      else if key = CHR ''4'' then 0b01000010
      else if key = CHR ''5'' then 0b00100010
      else if key = CHR ''6'' then 0b00010010
      else if key = CHR ''7'' then 0b01000100
      else if key = CHR ''8'' then 0b00100100
      else if key = CHR ''9'' then 0b00010100
      else if key = CHR ''*'' then 0b01001000
      else if key = CHR ''0'' then 0b00101000
      else if key = CHR ''#'' then 0b00011000
      else if key = CHR ''F'' then 0b01000000
      else if key = CHR ''A'' then 0b00100000
      else if key = CHR ''P'' then 0b00010000
      else 0)"

text \<open>The 15 symbols and the 15 physical codes of the two switches.\<close>

definition key_symbols :: "char list" where
  "key_symbols = ''0123456789*#FAP''"

definition key_codes :: "u8 list" where
  "key_codes = map getKeyValue key_symbols"

subsection \<open>State queries\<close>

definition keypadStateChanged :: "PC1550 \<Rightarrow> bool" where
  "keypadStateChanged s = bStateChanged s"

definition keyPressed :: "PC1550 \<Rightarrow> char" where
  "keyPressed s =
     (if \<not> bKeyPressed s then CHR 0x00 else getKeyChar (available_keypad_data s))"

definition keyReleased :: "PC1550 \<Rightarrow> char" where
  "keyReleased s =
     (if key_released_data s = 0 then CHR 0x00 else getKeyChar (key_released_data s))"

text \<open>
  \<open>available_controller_data << k >> 15\<close> on a 16-bit \<open>unsigned int\<close>: the left shift
  drops the bits pushed beyond bit 15. The \<open>bool\<close> returned is whether the result is
  nonzero.
\<close>

definition Zone1Light :: "PC1550 \<Rightarrow> bool" where
  "Zone1Light s = (drop_bit 15 (available_controller_data s) \<noteq> 0)"

definition Zone2Light :: "PC1550 \<Rightarrow> bool" where
  "Zone2Light s = (drop_bit 15 (push_bit 1 (available_controller_data s)) \<noteq> 0)"

definition Zone3Light :: "PC1550 \<Rightarrow> bool" where
  "Zone3Light s = (drop_bit 15 (push_bit 2 (available_controller_data s)) \<noteq> 0)"

definition Zone4Light :: "PC1550 \<Rightarrow> bool" where
  "Zone4Light s = (drop_bit 15 (push_bit 3 (available_controller_data s)) \<noteq> 0)"

definition Zone5Light :: "PC1550 \<Rightarrow> bool" where
  "Zone5Light s = (drop_bit 15 (push_bit 4 (available_controller_data s)) \<noteq> 0)"

definition Zone6Light :: "PC1550 \<Rightarrow> bool" where
  "Zone6Light s = (drop_bit 15 (push_bit 5 (available_controller_data s)) \<noteq> 0)"

definition ReadyLight :: "PC1550 \<Rightarrow> bool" where
  "ReadyLight s = (drop_bit 15 (push_bit 8 (available_controller_data s)) \<noteq> 0)"

definition ArmedLight :: "PC1550 \<Rightarrow> bool" where
  "ArmedLight s = (drop_bit 15 (push_bit 9 (available_controller_data s)) \<noteq> 0)"

definition MemoryLight :: "PC1550 \<Rightarrow> bool" where
  "MemoryLight s = (drop_bit 15 (push_bit 10 (available_controller_data s)) \<noteq> 0)"

definition BypassLight :: "PC1550 \<Rightarrow> bool" where
  "BypassLight s = (drop_bit 15 (push_bit 11 (available_controller_data s)) \<noteq> 0)"

definition TroubleLight :: "PC1550 \<Rightarrow> bool" where
  "TroubleLight s = (drop_bit 15 (push_bit 12 (available_controller_data s)) \<noteq> 0)"

definition Beep :: "PC1550 \<Rightarrow> bool" where
  "Beep s = (drop_bit 15 (push_bit 15 (available_controller_data s)) \<noteq> 0)"

definition consecutiveBeeps :: "PC1550 \<Rightarrow> u16" where
  "consecutiveBeeps s = word_of_int (iConsecutiveBeeps s)"

definition atTransmissionEnd :: "PC1550 \<Rightarrow> bool" where
  "atTransmissionEnd s = bTransmissionEnd s"

definition consecutiveKeyPresses :: "PC1550 \<Rightarrow> u16" where
  "consecutiveKeyPresses s = ucast (iConsecutiveKeyPressCycles s)"

definition readyForKeyPress :: "PC1550 \<Rightarrow> bool" where
  "readyForKeyPress s =
     (if 0 < keyHoldCycles s \<or> cyclesWithoutKey s < 1 then False else True)"

text \<open>\<open>sendKey\<close> returns its \<open>bool\<close> together with the object after the call.\<close>

definition sendKey :: "char \<Rightarrow> u8 \<Rightarrow> PC1550 \<Rightarrow> bool \<times> PC1550" where
  "sendKey c holdCycles s =
     (if \<not> readyForKeyPress s then (False, s)
      else let keyval = getKeyValue c in
        if keyval = 0 then (False, s)
        else (True, s\<lparr>key_to_send := keyval, keyHoldCycles := holdCycles\<rparr>))"

subsection \<open>Construction\<close>

text \<open>
  The constructor; \<open>now\<close> is what \<open>micros()\<close> returns at line 391. \<open>HIGH\<close> is 1, so
  \<open>last_clock\<close> starts as \<open>True\<close>.
\<close>

definition PC1550_ctor :: "u8 \<Rightarrow> u8 \<Rightarrow> u8 \<Rightarrow> u32 \<Rightarrow> PC1550" where
  "PC1550_ctor dpin cpin ppin now =
     \<lparr> datapin = dpin, clockpin = cpin, pgmpin = ppin,
       synchronized = False,
       controller_bits_read = 0,
       controller_data = 0,
       available_controller_data = 0,
       bStateChanged = False,
       keypad_bits_read = 0,
       keypad_data = 0,
       available_keypad_data = 0,
       pc16out_data = 0,
       available_pc16out_data = 0,
       key_released_data = 0,
       bKeyPressed = False,
       iConsecutiveKeyPressCycles = 0,
       last_read = now,
       last_clock = True,
       cyclesWithoutKey = 0,
       transmitting = False,
       keyHoldCycles = 0,
       key_to_send = 0,
       keypad_bits_sent = 0,
       iConsecutiveBeeps = 0,
       bTransmissionEnd = False,
       datapin_mode = INPUT,
       io_log = [PinMode dpin INPUT, PinMode cpin INPUT, PinMode ppin INPUT,
                 DigitalWrite dpin False, Micros] \<rparr>"

subsection \<open>processClockCycle\<close>

text \<open>
  Lines 431-458: clear the frame-complete flag, sample the three lines and the clock,
  and run the idle-gap test. The subtraction is on \<open>unsigned long\<close> and wraps.
\<close>

definition idle_gap :: "inputs \<Rightarrow> PC1550 \<Rightarrow> bool" where
  "idle_gap i s =
     (let time_since_last_read = micros_entry i - last_read s in
      \<not> clock_in i \<and> 25000 < time_since_last_read \<and> time_since_last_read < 28000)"

definition sample_and_sync :: "inputs \<Rightarrow> PC1550 \<Rightarrow> PC1550" where
  "sample_and_sync i s =
     (let s0 = s\<lparr>bTransmissionEnd := False,
                 io_log := io_log s @ [DigitalRead (clockpin s), DigitalRead (datapin s),
                                       DigitalRead (pgmpin s), Micros]\<rparr>
      in if idle_gap i s0
         then s0\<lparr>synchronized := True,
                 controller_bits_read := 0,
                 controller_data := 0,
                 pc16out_data := 0,
                 keypad_bits_read := 0,
                 keypad_data := 0,
                 keypad_bits_sent := 0\<rparr>
         else s0)"

text \<open>
  Lines 462-488, the falling edge of \<open>clock\<close>. \<open>bitValue << (6 - keypad_bits_read)\<close> is
  computed on \<open>int\<close>; the count is negative once seven keypad bits have been read.
\<close>

definition falling_edge :: "inputs \<Rightarrow> PC1550 \<Rightarrow> PC1550 option" where
  "falling_edge i s =
     (if \<not> clock_in i \<and> last_clock s \<noteq> clock_in i then
        if 0 < controller_bits_read s \<and> controller_bits_read s < 8 then
          if 6 < keypad_bits_read s then None
          else
            let bitValue = (of_bool (\<not> settle_read2 i) :: u8) in
            Some (s\<lparr>keypad_data :=
                       keypad_data s OR push_bit (6 - unat (keypad_bits_read s)) bitValue,
                     keypad_bits_read := keypad_bits_read s + 1,
                     io_log := io_log s @ [DigitalRead (datapin s), DelayMicroseconds 100,
                                           DigitalRead (datapin s)]\<rparr>)
        else Some s
      else Some s)"

text \<open>
  Lines 492-548, the rising edge of \<open>clock\<close>, block by block. Lines 495-506 store the
  two bits read and count them; the caller has checked that the shift count
  \<open>15 - controller_bits_read\<close> is not negative.
\<close>

definition store_bits :: "inputs \<Rightarrow> PC1550 \<Rightarrow> PC1550" where
  "store_bits i s =
     (let n = 15 - unat (controller_bits_read s) in
      s\<lparr>last_read := micros_edge i,
        controller_data := controller_data s OR push_bit n (of_bool (data_in i)),
        pc16out_data := pc16out_data s OR push_bit n (of_bool (pgm_in i)),
        controller_bits_read := controller_bits_read s + 1,
        io_log := io_log s @ [Micros]\<rparr>)"

text \<open>Lines 509-516: on the first bit of a synchronized frame, look for a key to send.\<close>

definition first_bit :: "PC1550 \<Rightarrow> PC1550" where
  "first_bit s =
     (if synchronized s \<and> controller_bits_read s = 1 then
        if key_to_send s \<noteq> 0
        then s\<lparr>cyclesWithoutKey := 0, transmitting := True\<rparr>
        else s\<lparr>cyclesWithoutKey := cyclesWithoutKey s + 1\<rparr>
      else s)"

text \<open>Lines 519-520, the "sanity check".\<close>

definition sanity_check :: "PC1550 \<Rightarrow> PC1550" where
  "sanity_check s =
     (if 8 \<le> controller_bits_read s then s\<lparr>transmitting := False\<rparr> else s)"

text \<open>Line 527: let the data line float.\<close>

definition release_line :: "PC1550 \<Rightarrow> PC1550" where
  "release_line s =
     s\<lparr>datapin_mode := INPUT, io_log := io_log s @ [PinMode (datapin s) INPUT]\<rparr>"

text \<open>
  Lines 530-547, transmit mode. \<open>controller_bits_read\<close> is at most 7 here (line 519),
  so the count \<open>7 - controller_bits_read\<close> of line 533 is not negative.
\<close>

definition transmit_bit :: "PC1550 \<Rightarrow> PC1550" where
  "transmit_bit s =
     (if transmitting s then
        let s1 = (if bit (drop_bit (7 - unat (controller_bits_read s)) (key_to_send s)) 0
                  then s\<lparr>datapin_mode := OUTPUT,
                         io_log := io_log s @ [PinMode (datapin s) OUTPUT]\<rparr>
                  else s)
        in if controller_bits_read s1 = 7 then
             let s2 = (if 0 < keyHoldCycles s1
                       then s1\<lparr>keyHoldCycles := keyHoldCycles s1 - 1\<rparr> else s1)
             in if keyHoldCycles s2 = 0 then s2\<lparr>key_to_send := 0\<rparr> else s2
           else s1
      else s)"

definition rising_edge :: "inputs \<Rightarrow> PC1550 \<Rightarrow> PC1550 option" where
  "rising_edge i s =
     (if clock_in i \<and> last_clock s \<noteq> clock_in i then
        if 15 < controller_bits_read s then None
        else Some (transmit_bit (release_line (sanity_check (first_bit (store_bits i s)))))
      else Some s)"

text \<open>Lines 551-608, the completion of a frame.\<close>

definition classify_keypad :: "PC1550 \<Rightarrow> PC1550" where
  "classify_keypad s =
     (if keypad_data s \<noteq> 0 then
        if available_keypad_data s = keypad_data s then
          s\<lparr>bKeyPressed := False, key_released_data := 0,
            iConsecutiveKeyPressCycles := iConsecutiveKeyPressCycles s + 1\<rparr>
        else if available_keypad_data s = 0 then
          s\<lparr>bKeyPressed := True, key_released_data := 0,
            iConsecutiveKeyPressCycles := 1\<rparr>
        else if available_keypad_data s \<noteq> 0 then
          s\<lparr>bKeyPressed := True, iConsecutiveKeyPressCycles := 1,
            key_released_data := available_keypad_data s\<rparr>
        else s
      else
        if available_keypad_data s \<noteq> 0 then
          s\<lparr>bKeyPressed := False, key_released_data := available_keypad_data s\<rparr>
        else if available_keypad_data s = 0 then
          s\<lparr>key_released_data := 0, bKeyPressed := False,
            iConsecutiveKeyPressCycles := 0\<rparr>
        else s)"

definition frame_complete :: "PC1550 \<Rightarrow> PC1550 option" where
  "frame_complete s =
     (if synchronized s \<and> controller_bits_read s = 16 then
        let s1 = s\<lparr>bStateChanged := (available_controller_data s \<noteq> controller_data s)\<rparr>;
            s2 = classify_keypad s1;
            s3 = s2\<lparr>available_keypad_data := keypad_data s2,
                    available_controller_data := controller_data s2,
                    available_pc16out_data := pc16out_data s2\<rparr>
        in if \<not> Beep s3 then
             Some (s3\<lparr>iConsecutiveBeeps := 0, bTransmissionEnd := True,
                      synchronized := False, controller_bits_read := 0\<rparr>)
           else if iConsecutiveBeeps s3 = INT_MAX then None
           else
             Some (s3\<lparr>iConsecutiveBeeps := iConsecutiveBeeps s3 + 1,
                      bTransmissionEnd := True,
                      synchronized := False, controller_bits_read := 0\<rparr>)
      else Some s)"

text \<open>
  The whole call. Both edge tests compare with the \<open>last_clock\<close> of the previous call,
  which is overwritten only at line 610.
\<close>

definition processClockCycle :: "PC1550 \<Rightarrow> inputs \<Rightarrow> PC1550 option" where
  "processClockCycle s i =
     (case falling_edge i (sample_and_sync i s) of
        None \<Rightarrow> None
      | Some s2 \<Rightarrow>
          (case rising_edge i s2 of
             None \<Rightarrow> None
           | Some s3 \<Rightarrow>
               (case frame_complete s3 of
                  None \<Rightarrow> None
                | Some s4 \<Rightarrow> Some (s4\<lparr>last_clock := clock_in i\<rparr>))))"

text \<open>
  Whether a call reaches line 551 with \<open>synchronized\<close> set and sixteen bits read, that
  is, whether it completes a frame.
\<close>

definition completes_frame :: "PC1550 \<Rightarrow> inputs \<Rightarrow> bool" where
  "completes_frame s i =
     (case falling_edge i (sample_and_sync i s) of
        None \<Rightarrow> False
      | Some s2 \<Rightarrow>
          (case rising_edge i s2 of
             None \<Rightarrow> False
           | Some s3 \<Rightarrow> synchronized s3 \<and> controller_bits_read s3 = 16))"

subsection \<open>Sequences of calls\<close>

text \<open>
  The objects a program can hold: the constructed one, and what the two mutating
  member functions make of a reachable one (\<open>processTransmissionCycle\<close> is a loop of
  \<open>processClockCycle\<close> calls; all other members are queries).
\<close>

inductive reachable :: "PC1550 \<Rightarrow> bool" where
  ctor: "reachable (PC1550_ctor dpin cpin ppin now)"
| tick: "reachable s \<Longrightarrow> processClockCycle s i = Some s' \<Longrightarrow> reachable s'"
| key: "reachable s \<Longrightarrow> reachable (snd (sendKey c n s))"

text \<open>
  A poll during which the lines and the clock do not change: every read of the call
  returns the same level and the same time.
\<close>

definition poll :: "bool \<Rightarrow> bool \<Rightarrow> bool \<Rightarrow> u32 \<Rightarrow> inputs" where
  "poll c d p t =
     \<lparr> clock_in = c, data_in = d, pgm_in = p, micros_entry = t,
       settle_read1 = d, settle_read2 = d, micros_edge = t \<rparr>"

fun run :: "PC1550 \<Rightarrow> inputs list \<Rightarrow> PC1550 option" where
  "run s [] = Some s"
| "run s (i # is) =
     (case processClockCycle s i of None \<Rightarrow> None | Some s' \<Rightarrow> run s' is)"

text \<open>
  A call that takes the first bit of a synchronized frame while no key is pending: the
  only place where \<open>cyclesWithoutKey\<close> is incremented (line 515).
\<close>

definition frame_start_without_key :: "PC1550 \<Rightarrow> inputs \<Rightarrow> bool" where
  "frame_start_without_key s i =
     (clock_in i \<and> \<not> last_clock s \<and> synchronized s \<and> controller_bits_read s = 0 \<and>
      key_to_send s = 0)"

text \<open>The objects reached from the constructor before any such call.\<close>

inductive before_first_quiet_frame :: "PC1550 \<Rightarrow> bool" where
  ctor: "before_first_quiet_frame (PC1550_ctor dpin cpin ppin now)"
| tick: "before_first_quiet_frame s \<Longrightarrow> \<not> frame_start_without_key s i \<Longrightarrow>
         processClockCycle s i = Some s' \<Longrightarrow> before_first_quiet_frame s'"
| key: "before_first_quiet_frame s \<Longrightarrow> before_first_quiet_frame (snd (sendKey c n s))"

subsection \<open>Frames\<close>

text \<open>
  \<open>frame s is = Some s'\<close>: the polls \<open>is\<close>, processed from \<open>s\<close>, are one synchronized
  frame that ends in \<open>s'\<close>. The frame is made of polls up to the first rising edge, which
  is taken synchronized at frame position 0, followed by polls none of which
  resynchronizes, up to the poll that completes the frame (\<open>frame_body\<close>).
\<close>

fun frame_body :: "PC1550 \<Rightarrow> inputs list \<Rightarrow> PC1550 option" where
  "frame_body s [] = None"
| "frame_body s (i # is) =
     (if idle_gap i s then None
      else case processClockCycle s i of
             None \<Rightarrow> None
           | Some s' \<Rightarrow>
               if completes_frame s i then (if is = [] then Some s' else None)
               else frame_body s' is)"

fun frame :: "PC1550 \<Rightarrow> inputs list \<Rightarrow> PC1550 option" where
  "frame s [] = None"
| "frame s (i # is) =
     (if clock_in i \<and> \<not> last_clock s then
        if synchronized s \<and> controller_bits_read s = 0 then frame_body s (i # is) else None
      else case processClockCycle s i of None \<Rightarrow> None | Some s' \<Rightarrow> frame s' is)"

fun frames :: "PC1550 \<Rightarrow> inputs list list \<Rightarrow> PC1550 option" where
  "frames s [] = Some s"
| "frames s (f # fs) = (case frame s f of None \<Rightarrow> None | Some s' \<Rightarrow> frames s' fs)"

text \<open>
  The \<open>pinMode\<close> calls in the history of an object, and the ones a frame issues when the
  key code \<open>k\<close> is transmitted on data pin \<open>d\<close>: at every frame position the line is
  released, and at positions 1 to 7 it is then driven when bit \<open>7 - p\<close> of \<open>k\<close> is set.
  \<open>drive_pattern d 0\<close> releases the line sixteen times and never drives it.
\<close>

fun is_PinMode :: "io_event \<Rightarrow> bool" where
  "is_PinMode (PinMode pin m) = True"
| "is_PinMode (DigitalWrite pin v) = False"
| "is_PinMode (DigitalRead pin) = False"
| "is_PinMode Micros = False"
| "is_PinMode (DelayMicroseconds n) = False"

definition pin_events :: "PC1550 \<Rightarrow> io_event list" where
  "pin_events s = filter is_PinMode (io_log s)"

definition drive_slot :: "u8 \<Rightarrow> u8 \<Rightarrow> nat \<Rightarrow> io_event list" where
  "drive_slot d k p =
     PinMode d INPUT # (if p \<le> 7 \<and> bit k (7 - p) then [PinMode d OUTPUT] else [])"

definition drive_pattern :: "u8 \<Rightarrow> u8 \<Rightarrow> io_event list" where
  "drive_pattern d k = concat (map (drive_slot d k) [1..<17])"

text \<open>
  The \<open>pinMode\<close> calls in the history that make the data pin an output, and the runs of
  polls none of which takes the first bit of a synchronized frame.
\<close>

fun is_drive :: "io_event \<Rightarrow> bool" where
  "is_drive (PinMode pin OUTPUT) = True"
| "is_drive (PinMode pin INPUT) = False"
| "is_drive (DigitalWrite pin v) = False"
| "is_drive (DigitalRead pin) = False"
| "is_drive Micros = False"
| "is_drive (DelayMicroseconds n) = False"

definition drive_events :: "PC1550 \<Rightarrow> io_event list" where
  "drive_events s = filter is_drive (io_log s)"

fun no_frame_start :: "PC1550 \<Rightarrow> inputs list \<Rightarrow> bool" where
  "no_frame_start s [] = True"
| "no_frame_start s (i # is) =
     (\<not> (clock_in i \<and> \<not> last_clock s \<and> synchronized s \<and> controller_bits_read s = 0) \<and>
      (case processClockCycle s i of None \<Rightarrow> False | Some s' \<Rightarrow> no_frame_start s' is))"

text \<open>
  An example of the polls of one frame, two per clock cycle: a poll 800 microseconds
  after the last bit of the previous frame, a poll at \<open>t\<close> in the idle gap, the rising
  edge of the first bit (panel data \<open>d\<close>, PGM level \<open>g\<close>) and, for each \<open>(k, d, g)\<close> of
  \<open>bs\<close>, a falling edge on which the data line reads \<open>k\<close> followed by the rising edge
  of the next bit.
\<close>

fun example_cycles :: "u32 \<Rightarrow> (bool \<times> bool \<times> bool) list \<Rightarrow> inputs list" where
  "example_cycles t [] = []"
| "example_cycles t ((k, d, g) # bs) =
     poll False k False t # poll True d g (t + 800) # example_cycles (t + 1600) bs"

definition example_frame :: "u32 \<Rightarrow> bool \<Rightarrow> bool \<Rightarrow> (bool \<times> bool \<times> bool) list \<Rightarrow> inputs list" where
  "example_frame t d g bs =
     poll False True False (t - 25700) # poll False True False t #
     poll True d g (t + 500) # example_cycles (t + 1300) bs"

subsection \<open>Histories of frame starts\<close>

text \<open>
  The number of calls of a run that took the first bit of a synchronized frame with no
  key pending, and the polls of \<open>n\<close> such frame starts after time \<open>t\<close>: a poll in the
  idle gap, 26000 microseconds after the last bit, and the rising edge of the first bit
  500 microseconds later.
\<close>

fun quiet_starts_seen :: "PC1550 \<Rightarrow> inputs list \<Rightarrow> nat" where
  "quiet_starts_seen s [] = 0"
| "quiet_starts_seen s (i # is) =
     (case processClockCycle s i of
        None \<Rightarrow> 0
      | Some s' \<Rightarrow> (if frame_start_without_key s i then 1 else 0) + quiet_starts_seen s' is)"

fun quiet_frame_starts :: "nat \<Rightarrow> u32 \<Rightarrow> inputs list" where
  "quiet_frame_starts 0 t = []"
| "quiet_frame_starts (Suc n) t =
     poll False True False (t + 26000) # poll True False False (t + 26500) #
     quiet_frame_starts n (t + 26500)"

text \<open>
  Two objects of an example history. \<open>after_quiet_frame\<close>: the constructed object after
  one frame without key. \<open>interrupted_frame\<close>: from there \<open>sendKey('5', 1)\<close>, the polls
  of the next frame up to its 7th bit, a poll delayed by 26000 microseconds (which
  resynchronizes) and the rising edge of the first bit of the following frame.
\<close>

definition after_quiet_frame :: PC1550 where
  "after_quiet_frame =
     the (run (PC1550_ctor 17 18 15 0)
            (example_frame 26500 False False (replicate 15 (True, False, False))))"

definition interrupted_frame :: PC1550 where
  "interrupted_frame =
     the (run (snd (sendKey CHR ''5'' 1 after_quiet_frame))
            (example_frame 77500 False False (replicate 6 (True, False, False)) @
             [poll False True False 113600, poll True False False 114100]))"

section \<open>Key code table\<close>

lemma getKeyValue_zero_iff: "getKeyValue c = 0 \<longleftrightarrow> c \<notin> set key_symbols"
  by (simp add: getKeyValue_def key_symbols_def)

lemma getKeyChar_getKeyValue:
  "c \<in> set key_symbols \<Longrightarrow> getKeyChar (getKeyValue c) = c"
  by (auto simp add: key_symbols_def getKeyValue_def getKeyChar_def)

lemma key_codes_eq:
  "key_codes = [0b00101000, 0b01000001, 0b00100001, 0b00010001, 0b01000010, 0b00100010,
                0b00010010, 0b01000100, 0b00100100, 0b00010100, 0b01001000, 0b00011000,
                0b01000000, 0b00100000, 0b00010000]"
  by (simp add: key_codes_def key_symbols_def getKeyValue_def)

lemma getKeyChar_unknown: "v \<notin> set key_codes \<Longrightarrow> getKeyChar v = CHR 0x00"
  by (simp add: key_codes_eq getKeyChar_def)

text \<open>
  C8: for each of the 15 key symbols, decoding the code of the symbol gives the symbol
  back; every other character encodes to the sentinel 0; every byte that is not one of
  the 15 physical codes decodes to the sentinel \<open>'\0'\<close>.
\<close>

theorem key_code_table_round_trip:
  "(\<forall>c \<in> set key_symbols. getKeyChar (getKeyValue c) = c) \<and>
   (\<forall>c. c \<notin> set key_symbols \<longrightarrow> getKeyValue c = 0) \<and>
   (\<forall>v. v \<notin> set key_codes \<longrightarrow> getKeyChar v = CHR 0x00)"
  by (simp add: getKeyChar_getKeyValue getKeyValue_zero_iff getKeyChar_unknown)

theorem key_code_table_round_trip_witness:
  "CHR ''5'' \<in> set key_symbols \<and> getKeyChar (getKeyValue CHR ''5'') = CHR ''5'' \<and>
   CHR ''x'' \<notin> set key_symbols \<and> getKeyValue CHR ''x'' = 0 \<and>
   (0b01100000 :: u8) \<notin> set key_codes \<and> getKeyChar 0b01100000 = CHR 0x00"
proof -
  have s5: "CHR ''5'' \<in> set key_symbols" and sx: "CHR ''x'' \<notin> set key_symbols"
    by (simp_all add: key_symbols_def)
  have v: "(0b01100000 :: u8) \<notin> set key_codes"
    by (simp add: key_codes_eq)
  from key_code_table_round_trip s5 sx v show ?thesis
    by blast
qed

section \<open>Status lights\<close>

lemma top_bit_u16: "(drop_bit 15 (w :: u16) \<noteq> 0) = bit w 15"
proof -
  have hi: "bit w (15 + n) \<Longrightarrow> n = 0" for n
    using bit_imp_le_length [of w "15 + n"] by simp
  have "drop_bit 15 w = of_bool (bit w 15)"
  proof (rule bit_word_eqI)
    fix n
    show "bit (drop_bit 15 w) n = bit (of_bool (bit w 15) :: u16) n"
      using hi [of n] by (cases "n = 0") (auto simp add: bit_simps)
  qed
  then show ?thesis by simp
qed

lemma shl_shr_bit_u16:
  "k \<le> 15 \<Longrightarrow> (drop_bit 15 (push_bit k (x :: u16)) \<noteq> 0) = bit x (15 - k)"
  by (simp add: top_bit_u16 bit_simps)

lemma Beep_bit: "Beep s = bit (available_controller_data s) 0"
  unfolding Beep_def using shl_shr_bit_u16 [of 15 "available_controller_data s"] by simp

text \<open>
  C9: each status-light accessor is the value of one bit of the 16-bit available status
  snapshot, hence depends on no other bit: \<open>Zone1Light\<close> .. \<open>Zone6Light\<close> are bits
  15 .. 10, \<open>ReadyLight\<close>, \<open>ArmedLight\<close>, \<open>MemoryLight\<close>, \<open>BypassLight\<close>, \<open>TroubleLight\<close>
  are bits 7 .. 3 and \<open>Beep\<close> is bit 0.
\<close>

theorem status_lights_read_one_bit:
  "Zone1Light s = bit (available_controller_data s) 15 \<and>
   Zone2Light s = bit (available_controller_data s) 14 \<and>
   Zone3Light s = bit (available_controller_data s) 13 \<and>
   Zone4Light s = bit (available_controller_data s) 12 \<and>
   Zone5Light s = bit (available_controller_data s) 11 \<and>
   Zone6Light s = bit (available_controller_data s) 10 \<and>
   ReadyLight s = bit (available_controller_data s) 7 \<and>
   ArmedLight s = bit (available_controller_data s) 6 \<and>
   MemoryLight s = bit (available_controller_data s) 5 \<and>
   BypassLight s = bit (available_controller_data s) 4 \<and>
   TroubleLight s = bit (available_controller_data s) 3 \<and>
   Beep s = bit (available_controller_data s) 0"
proof -
  let ?x = "available_controller_data s"
  have "Zone1Light s = bit ?x 15"
    unfolding Zone1Light_def by (rule top_bit_u16)
  moreover have "Zone2Light s = bit ?x 14"
    unfolding Zone2Light_def using shl_shr_bit_u16 [of 1 ?x] by simp
  moreover have "Zone3Light s = bit ?x 13"
    unfolding Zone3Light_def using shl_shr_bit_u16 [of 2 ?x] by simp
  moreover have "Zone4Light s = bit ?x 12"
    unfolding Zone4Light_def using shl_shr_bit_u16 [of 3 ?x] by simp
  moreover have "Zone5Light s = bit ?x 11"
    unfolding Zone5Light_def using shl_shr_bit_u16 [of 4 ?x] by simp
  moreover have "Zone6Light s = bit ?x 10"
    unfolding Zone6Light_def using shl_shr_bit_u16 [of 5 ?x] by simp
  moreover have "ReadyLight s = bit ?x 7"
    unfolding ReadyLight_def using shl_shr_bit_u16 [of 8 ?x] by simp
  moreover have "ArmedLight s = bit ?x 6"
    unfolding ArmedLight_def using shl_shr_bit_u16 [of 9 ?x] by simp
  moreover have "MemoryLight s = bit ?x 5"
    unfolding MemoryLight_def using shl_shr_bit_u16 [of 10 ?x] by simp
  moreover have "BypassLight s = bit ?x 4"
    unfolding BypassLight_def using shl_shr_bit_u16 [of 11 ?x] by simp
  moreover have "TroubleLight s = bit ?x 3"
    unfolding TroubleLight_def using shl_shr_bit_u16 [of 12 ?x] by simp
  moreover have "Beep s = bit ?x 0"
    by (rule Beep_bit)
  ultimately show ?thesis by blast
qed

theorem status_lights_read_one_bit_witness:
  "Zone2Light (PC1550_ctor 17 18 15 0 \<lparr>available_controller_data := 0b1100000000000000\<rparr>) \<and>
   \<not> Zone3Light (PC1550_ctor 17 18 15 0 \<lparr>available_controller_data := 0b1100000000000000\<rparr>)"
  using status_lights_read_one_bit
    [of "PC1550_ctor 17 18 15 0 \<lparr>available_controller_data := 0b1100000000000000\<rparr>"]
  by simp

section \<open>sendKey\<close>

text \<open>
  On the fields: \<open>sendKey c n\<close> returns false and leaves the whole object as it was
  when the hold-cycle counter is above zero, when \<open>cyclesWithoutKey\<close> is below one or
  when \<open>c\<close> is not one of the 15 symbols; otherwise it returns true, and the only
  change is that the code of \<open>c\<close> is the pending key and \<open>n\<close> the hold-cycle count.
\<close>

theorem sendKey_rejects_or_records:
  "sendKey c n s =
     (if 0 < keyHoldCycles s \<or> cyclesWithoutKey s < 1 \<or> c \<notin> set key_symbols
      then (False, s)
      else (True, s\<lparr>key_to_send := getKeyValue c, keyHoldCycles := n\<rparr>))"
  by (simp add: sendKey_def readyForKeyPress_def getKeyValue_zero_iff Let_def)

theorem sendKey_rejects_or_records_witness:
  "sendKey CHR ''5'' 3 (PC1550_ctor 17 18 15 0) = (False, PC1550_ctor 17 18 15 0) \<and>
   sendKey CHR ''5'' 3 (PC1550_ctor 17 18 15 0 \<lparr>cyclesWithoutKey := 1\<rparr>) =
     (True, PC1550_ctor 17 18 15 0
              \<lparr>cyclesWithoutKey := 1, key_to_send := 0b00100010, keyHoldCycles := 3\<rparr>) \<and>
   sendKey CHR ''x'' 3 (PC1550_ctor 17 18 15 0 \<lparr>cyclesWithoutKey := 1\<rparr>) =
     (False, PC1550_ctor 17 18 15 0 \<lparr>cyclesWithoutKey := 1\<rparr>)"
  using sendKey_rejects_or_records [of "CHR ''5''" 3 "PC1550_ctor 17 18 15 0"]
    sendKey_rejects_or_records [of "CHR ''5''" 3 "PC1550_ctor 17 18 15 0 \<lparr>cyclesWithoutKey := 1\<rparr>"]
    sendKey_rejects_or_records [of "CHR ''x''" 3 "PC1550_ctor 17 18 15 0 \<lparr>cyclesWithoutKey := 1\<rparr>"]
  by (simp add: PC1550_ctor_def key_symbols_def getKeyValue_def)

section \<open>The stages of a call\<close>

lemma idle_gap_entry [simp]:
  "idle_gap i (s\<lparr>bTransmissionEnd := b, io_log := l\<rparr>) = idle_gap i s"
  by (simp add: idle_gap_def)

lemma sample_and_sync_keeps:
  "key_to_send (sample_and_sync i s) = key_to_send s"
  "keyHoldCycles (sample_and_sync i s) = keyHoldCycles s"
  "transmitting (sample_and_sync i s) = transmitting s"
  "cyclesWithoutKey (sample_and_sync i s) = cyclesWithoutKey s"
  "datapin_mode (sample_and_sync i s) = datapin_mode s"
  "datapin (sample_and_sync i s) = datapin s"
  "last_clock (sample_and_sync i s) = last_clock s"
  "last_read (sample_and_sync i s) = last_read s"
  "available_controller_data (sample_and_sync i s) = available_controller_data s"
  "available_pc16out_data (sample_and_sync i s) = available_pc16out_data s"
  "available_keypad_data (sample_and_sync i s) = available_keypad_data s"
  "key_released_data (sample_and_sync i s) = key_released_data s"
  "bKeyPressed (sample_and_sync i s) = bKeyPressed s"
  "iConsecutiveKeyPressCycles (sample_and_sync i s) = iConsecutiveKeyPressCycles s"
  "iConsecutiveBeeps (sample_and_sync i s) = iConsecutiveBeeps s"
  "bStateChanged (sample_and_sync i s) = bStateChanged s"
  "bTransmissionEnd (sample_and_sync i s) = False"
  "io_log (sample_and_sync i s) =
     io_log s @ [DigitalRead (clockpin s), DigitalRead (datapin s),
                 DigitalRead (pgmpin s), Micros]"
  by (simp_all add: sample_and_sync_def Let_def)

lemma sample_and_sync_idle:
  assumes "idle_gap i s"
  shows "synchronized (sample_and_sync i s)"
    "controller_bits_read (sample_and_sync i s) = 0"
    "controller_data (sample_and_sync i s) = 0"
    "pc16out_data (sample_and_sync i s) = 0"
    "keypad_bits_read (sample_and_sync i s) = 0"
    "keypad_data (sample_and_sync i s) = 0"
    "keypad_bits_sent (sample_and_sync i s) = 0"
  using assms by (simp_all add: sample_and_sync_def Let_def)

lemma sample_and_sync_no_idle:
  assumes "\<not> idle_gap i s"
  shows "synchronized (sample_and_sync i s) = synchronized s"
    "controller_bits_read (sample_and_sync i s) = controller_bits_read s"
    "controller_data (sample_and_sync i s) = controller_data s"
    "pc16out_data (sample_and_sync i s) = pc16out_data s"
    "keypad_bits_read (sample_and_sync i s) = keypad_bits_read s"
    "keypad_data (sample_and_sync i s) = keypad_data s"
    "keypad_bits_sent (sample_and_sync i s) = keypad_bits_sent s"
  using assms by (simp_all add: sample_and_sync_def Let_def)

lemma idle_gap_clock: "idle_gap i s \<Longrightarrow> \<not> clock_in i"
  by (simp add: idle_gap_def Let_def)

lemma falling_edge_keeps:
  assumes "falling_edge i s = Some s'"
  shows "key_to_send s' = key_to_send s"
    "keyHoldCycles s' = keyHoldCycles s"
    "transmitting s' = transmitting s"
    "cyclesWithoutKey s' = cyclesWithoutKey s"
    "datapin_mode s' = datapin_mode s"
    "datapin s' = datapin s"
    "last_clock s' = last_clock s"
    "last_read s' = last_read s"
    "synchronized s' = synchronized s"
    "controller_bits_read s' = controller_bits_read s"
    "controller_data s' = controller_data s"
    "pc16out_data s' = pc16out_data s"
    "available_controller_data s' = available_controller_data s"
    "available_pc16out_data s' = available_pc16out_data s"
    "available_keypad_data s' = available_keypad_data s"
    "key_released_data s' = key_released_data s"
    "bKeyPressed s' = bKeyPressed s"
    "iConsecutiveKeyPressCycles s' = iConsecutiveKeyPressCycles s"
    "iConsecutiveBeeps s' = iConsecutiveBeeps s"
    "bStateChanged s' = bStateChanged s"
    "bTransmissionEnd s' = bTransmissionEnd s"
  using assms by (auto simp add: falling_edge_def Let_def split: if_splits)

lemma falling_edge_no_edge:
  "\<not> (\<not> clock_in i \<and> last_clock s) \<Longrightarrow> falling_edge i s = Some s"
  by (auto simp add: falling_edge_def)

lemma falling_edge_outside:
  "\<not> (0 < controller_bits_read s \<and> controller_bits_read s < 8) \<Longrightarrow> falling_edge i s = Some s"
  by (auto simp add: falling_edge_def)

lemma falling_edge_sample:
  assumes "\<not> clock_in i" "last_clock s" "0 < controller_bits_read s" "controller_bits_read s < 8"
  shows "falling_edge i s =
     (if 6 < keypad_bits_read s then None
      else Some (s\<lparr>keypad_data :=
                     keypad_data s OR push_bit (6 - unat (keypad_bits_read s)) (of_bool (\<not> settle_read2 i)),
                   keypad_bits_read := keypad_bits_read s + 1,
                   io_log := io_log s @ [DigitalRead (datapin s), DelayMicroseconds 100,
                                         DigitalRead (datapin s)]\<rparr>))"
  using assms by (simp add: falling_edge_def Let_def)

lemma rising_edge_no_edge:
  "\<not> (clock_in i \<and> \<not> last_clock s) \<Longrightarrow> rising_edge i s = Some s"
  by (auto simp add: rising_edge_def)


lemma u8_le_1: "(h :: u8) \<le> 1 \<longleftrightarrow> h = 0 \<or> h = 1"
  by (auto simp add: word_le_nat_alt word_unat_eq_iff)

lemma u8_dec_zero: "0 < (h :: u8) \<Longrightarrow> h - 1 = 0 \<longleftrightarrow> h = 1"
  by auto

lemma store_bits_fields [simp]:
  "last_read (store_bits i s) = micros_edge i"
  "controller_data (store_bits i s) =
     controller_data s OR push_bit (15 - unat (controller_bits_read s)) (of_bool (data_in i))"
  "pc16out_data (store_bits i s) =
     pc16out_data s OR push_bit (15 - unat (controller_bits_read s)) (of_bool (pgm_in i))"
  "controller_bits_read (store_bits i s) = controller_bits_read s + 1"
  "io_log (store_bits i s) = io_log s @ [Micros]"
  "key_to_send (store_bits i s) = key_to_send s"
  "keyHoldCycles (store_bits i s) = keyHoldCycles s"
  "transmitting (store_bits i s) = transmitting s"
  "cyclesWithoutKey (store_bits i s) = cyclesWithoutKey s"
  "datapin_mode (store_bits i s) = datapin_mode s"
  "datapin (store_bits i s) = datapin s"
  "synchronized (store_bits i s) = synchronized s"
  by (simp_all add: store_bits_def Let_def)

lemma first_bit_fields [simp]:
  "key_to_send (first_bit s) = key_to_send s"
  "keyHoldCycles (first_bit s) = keyHoldCycles s"
  "controller_bits_read (first_bit s) = controller_bits_read s"
  "datapin_mode (first_bit s) = datapin_mode s"
  "datapin (first_bit s) = datapin s"
  "io_log (first_bit s) = io_log s"
  "synchronized (first_bit s) = synchronized s"
  "transmitting (first_bit s) =
     (transmitting s \<or> synchronized s \<and> controller_bits_read s = 1 \<and> key_to_send s \<noteq> 0)"
  "cyclesWithoutKey (first_bit s) =
     (if synchronized s \<and> controller_bits_read s = 1
      then if key_to_send s \<noteq> 0 then 0 else cyclesWithoutKey s + 1
      else cyclesWithoutKey s)"
  by (auto simp add: first_bit_def)

lemma sanity_check_fields [simp]:
  "key_to_send (sanity_check s) = key_to_send s"
  "keyHoldCycles (sanity_check s) = keyHoldCycles s"
  "controller_bits_read (sanity_check s) = controller_bits_read s"
  "cyclesWithoutKey (sanity_check s) = cyclesWithoutKey s"
  "datapin_mode (sanity_check s) = datapin_mode s"
  "datapin (sanity_check s) = datapin s"
  "io_log (sanity_check s) = io_log s"
  "synchronized (sanity_check s) = synchronized s"
  "transmitting (sanity_check s) = (transmitting s \<and> controller_bits_read s < 8)"
  by (auto simp add: sanity_check_def)

lemma release_line_fields [simp]:
  "key_to_send (release_line s) = key_to_send s"
  "keyHoldCycles (release_line s) = keyHoldCycles s"
  "controller_bits_read (release_line s) = controller_bits_read s"
  "cyclesWithoutKey (release_line s) = cyclesWithoutKey s"
  "transmitting (release_line s) = transmitting s"
  "datapin_mode (release_line s) = INPUT"
  "datapin (release_line s) = datapin s"
  "io_log (release_line s) = io_log s @ [PinMode (datapin s) INPUT]"
  "synchronized (release_line s) = synchronized s"
  by (simp_all add: release_line_def)

lemma transmit_bit_fields [simp]:
  "controller_bits_read (transmit_bit s) = controller_bits_read s"
  "cyclesWithoutKey (transmit_bit s) = cyclesWithoutKey s"
  "transmitting (transmit_bit s) = transmitting s"
  "datapin (transmit_bit s) = datapin s"
  "synchronized (transmit_bit s) = synchronized s"
  "datapin_mode (transmit_bit s) =
     (if transmitting s \<and> bit (key_to_send s) (7 - unat (controller_bits_read s))
      then OUTPUT else datapin_mode s)"
  "io_log (transmit_bit s) =
     io_log s @ (if transmitting s \<and> bit (key_to_send s) (7 - unat (controller_bits_read s))
                 then [PinMode (datapin s) OUTPUT] else [])"
  "keyHoldCycles (transmit_bit s) =
     (if transmitting s \<and> controller_bits_read s = 7 \<and> 0 < keyHoldCycles s
      then keyHoldCycles s - 1 else keyHoldCycles s)"
  "key_to_send (transmit_bit s) =
     (if transmitting s \<and> controller_bits_read s = 7 \<and> keyHoldCycles s \<le> 1
      then 0 else key_to_send s)"
  by (auto simp add: transmit_bit_def Let_def bit_simps u8_le_1 word_greater_zero_iff)

lemma frame_complete_noop:
  "\<not> (synchronized s \<and> controller_bits_read s = 16) \<Longrightarrow> frame_complete s = Some s"
  by (auto simp add: frame_complete_def)

lemma frame_complete_keeps:
  assumes "frame_complete s = Some s'"
  shows "key_to_send s' = key_to_send s"
    "keyHoldCycles s' = keyHoldCycles s"
    "transmitting s' = transmitting s"
    "cyclesWithoutKey s' = cyclesWithoutKey s"
    "datapin_mode s' = datapin_mode s"
    "datapin s' = datapin s"
    "io_log s' = io_log s"
    "last_clock s' = last_clock s"
    "last_read s' = last_read s"
    "controller_data s' = controller_data s"
    "pc16out_data s' = pc16out_data s"
    "keypad_data s' = keypad_data s"
    "keypad_bits_read s' = keypad_bits_read s"
    "keypad_bits_sent s' = keypad_bits_sent s"
  using assms
  by (auto simp add: frame_complete_def classify_keypad_def Let_def split: if_splits)

lemma frame_complete_fields:
  assumes "frame_complete s = Some s'" "synchronized s" "controller_bits_read s = 16"
  shows "available_controller_data s' = controller_data s"
    "available_pc16out_data s' = pc16out_data s"
    "available_keypad_data s' = keypad_data s"
    "iConsecutiveBeeps s' = (if bit (controller_data s) 0 then iConsecutiveBeeps s + 1 else 0)"
    "bStateChanged s' = (available_controller_data s \<noteq> controller_data s)"
    "bTransmissionEnd s'" "\<not> synchronized s'" "controller_bits_read s' = 0"
  using assms
  by (auto simp add: frame_complete_def classify_keypad_def Let_def Beep_bit split: if_splits)

lemma frame_complete_post:
  "frame_complete s = Some s' \<Longrightarrow> \<not> (synchronized s' \<and> controller_bits_read s' = 16)"
  by (auto simp add: frame_complete_def classify_keypad_def Let_def split: if_splits)

lemma processClockCycle_stages:
  assumes "processClockCycle s i = Some s'"
  obtains s2 s3 s4 where
    "falling_edge i (sample_and_sync i s) = Some s2"
    "rising_edge i s2 = Some s3"
    "frame_complete s3 = Some s4"
    "s' = s4\<lparr>last_clock := clock_in i\<rparr>"
    "completes_frame s i = (synchronized s3 \<and> controller_bits_read s3 = 16)"
  using assms
  by (auto simp add: processClockCycle_def completes_frame_def split: option.splits)


lemma rising_edge_edge:
  "clock_in i \<Longrightarrow> \<not> last_clock s \<Longrightarrow>
   rising_edge i s =
     (if 15 < controller_bits_read s then None
      else Some (transmit_bit (release_line (sanity_check (first_bit (store_bits i s))))))"
  by (simp add: rising_edge_def)

lemma store_bits_keeps [simp]:
  "last_clock (store_bits i s) = last_clock s"
  "keypad_data (store_bits i s) = keypad_data s"
  "keypad_bits_read (store_bits i s) = keypad_bits_read s"
  "keypad_bits_sent (store_bits i s) = keypad_bits_sent s"
  "available_controller_data (store_bits i s) = available_controller_data s"
  "available_pc16out_data (store_bits i s) = available_pc16out_data s"
  "available_keypad_data (store_bits i s) = available_keypad_data s"
  "key_released_data (store_bits i s) = key_released_data s"
  "bKeyPressed (store_bits i s) = bKeyPressed s"
  "iConsecutiveKeyPressCycles (store_bits i s) = iConsecutiveKeyPressCycles s"
  "iConsecutiveBeeps (store_bits i s) = iConsecutiveBeeps s"
  "bStateChanged (store_bits i s) = bStateChanged s"
  "bTransmissionEnd (store_bits i s) = bTransmissionEnd s"
  by (simp_all add: store_bits_def Let_def)

lemma first_bit_keeps [simp]:
  "last_clock (first_bit s) = last_clock s"
  "last_read (first_bit s) = last_read s"
  "controller_data (first_bit s) = controller_data s"
  "pc16out_data (first_bit s) = pc16out_data s"
  "keypad_data (first_bit s) = keypad_data s"
  "keypad_bits_read (first_bit s) = keypad_bits_read s"
  "keypad_bits_sent (first_bit s) = keypad_bits_sent s"
  "available_controller_data (first_bit s) = available_controller_data s"
  "available_pc16out_data (first_bit s) = available_pc16out_data s"
  "available_keypad_data (first_bit s) = available_keypad_data s"
  "key_released_data (first_bit s) = key_released_data s"
  "bKeyPressed (first_bit s) = bKeyPressed s"
  "iConsecutiveKeyPressCycles (first_bit s) = iConsecutiveKeyPressCycles s"
  "iConsecutiveBeeps (first_bit s) = iConsecutiveBeeps s"
  "bStateChanged (first_bit s) = bStateChanged s"
  "bTransmissionEnd (first_bit s) = bTransmissionEnd s"
  by (simp_all add: first_bit_def)

lemma sanity_check_keeps [simp]:
  "last_clock (sanity_check s) = last_clock s"
  "last_read (sanity_check s) = last_read s"
  "controller_data (sanity_check s) = controller_data s"
  "pc16out_data (sanity_check s) = pc16out_data s"
  "keypad_data (sanity_check s) = keypad_data s"
  "keypad_bits_read (sanity_check s) = keypad_bits_read s"
  "keypad_bits_sent (sanity_check s) = keypad_bits_sent s"
  "available_controller_data (sanity_check s) = available_controller_data s"
  "available_pc16out_data (sanity_check s) = available_pc16out_data s"
  "available_keypad_data (sanity_check s) = available_keypad_data s"
  "key_released_data (sanity_check s) = key_released_data s"
  "bKeyPressed (sanity_check s) = bKeyPressed s"
  "iConsecutiveKeyPressCycles (sanity_check s) = iConsecutiveKeyPressCycles s"
  "iConsecutiveBeeps (sanity_check s) = iConsecutiveBeeps s"
  "bStateChanged (sanity_check s) = bStateChanged s"
  "bTransmissionEnd (sanity_check s) = bTransmissionEnd s"
  by (simp_all add: sanity_check_def)

lemma release_line_keeps [simp]:
  "last_clock (release_line s) = last_clock s"
  "last_read (release_line s) = last_read s"
  "controller_data (release_line s) = controller_data s"
  "pc16out_data (release_line s) = pc16out_data s"
  "keypad_data (release_line s) = keypad_data s"
  "keypad_bits_read (release_line s) = keypad_bits_read s"
  "keypad_bits_sent (release_line s) = keypad_bits_sent s"
  "available_controller_data (release_line s) = available_controller_data s"
  "available_pc16out_data (release_line s) = available_pc16out_data s"
  "available_keypad_data (release_line s) = available_keypad_data s"
  "key_released_data (release_line s) = key_released_data s"
  "bKeyPressed (release_line s) = bKeyPressed s"
  "iConsecutiveKeyPressCycles (release_line s) = iConsecutiveKeyPressCycles s"
  "iConsecutiveBeeps (release_line s) = iConsecutiveBeeps s"
  "bStateChanged (release_line s) = bStateChanged s"
  "bTransmissionEnd (release_line s) = bTransmissionEnd s"
  by (simp_all add: release_line_def)

lemma transmit_bit_keeps [simp]:
  "last_clock (transmit_bit s) = last_clock s"
  "last_read (transmit_bit s) = last_read s"
  "controller_data (transmit_bit s) = controller_data s"
  "pc16out_data (transmit_bit s) = pc16out_data s"
  "keypad_data (transmit_bit s) = keypad_data s"
  "keypad_bits_read (transmit_bit s) = keypad_bits_read s"
  "keypad_bits_sent (transmit_bit s) = keypad_bits_sent s"
  "available_controller_data (transmit_bit s) = available_controller_data s"
  "available_pc16out_data (transmit_bit s) = available_pc16out_data s"
  "available_keypad_data (transmit_bit s) = available_keypad_data s"
  "key_released_data (transmit_bit s) = key_released_data s"
  "bKeyPressed (transmit_bit s) = bKeyPressed s"
  "iConsecutiveKeyPressCycles (transmit_bit s) = iConsecutiveKeyPressCycles s"
  "iConsecutiveBeeps (transmit_bit s) = iConsecutiveBeeps s"
  "bStateChanged (transmit_bit s) = bStateChanged s"
  "bTransmissionEnd (transmit_bit s) = bTransmissionEnd s"
  by (simp_all add: transmit_bit_def Let_def)

text \<open>A call on a rising edge, field by field.\<close>

lemma rising_call:
  assumes run: "processClockCycle s i = Some s'"
    and edge: "clock_in i" "\<not> last_clock s"
  shows "controller_bits_read s \<le> 15"
    and "transmitting s' =
       ((transmitting s \<or>
          synchronized s \<and> controller_bits_read s = 0 \<and> key_to_send s \<noteq> 0) \<and>
        controller_bits_read s < 7)"
    and "datapin_mode s' =
       (if transmitting s' \<and> bit (key_to_send s) (7 - unat (controller_bits_read s + 1))
        then OUTPUT else INPUT)"
    and "keyHoldCycles s' =
       (if transmitting s' \<and> controller_bits_read s = 6 \<and> 0 < keyHoldCycles s
        then keyHoldCycles s - 1 else keyHoldCycles s)"
    and "key_to_send s' =
       (if transmitting s' \<and> controller_bits_read s = 6 \<and> keyHoldCycles s \<le> 1
        then 0 else key_to_send s)"
    and "cyclesWithoutKey s' =
       (if synchronized s \<and> controller_bits_read s = 0
        then if key_to_send s \<noteq> 0 then 0 else cyclesWithoutKey s + 1
        else cyclesWithoutKey s)"
    and "completes_frame s i = (synchronized s \<and> controller_bits_read s = 15)"
    and "synchronized s' = (synchronized s \<and> controller_bits_read s \<noteq> 15)"
    and "controller_bits_read s' =
       (if synchronized s \<and> controller_bits_read s = 15 then 0
        else controller_bits_read s + 1)"
    and "controller_data s' =
       controller_data s OR push_bit (15 - unat (controller_bits_read s)) (of_bool (data_in i))"
    and "pc16out_data s' =
       pc16out_data s OR push_bit (15 - unat (controller_bits_read s)) (of_bool (pgm_in i))"
    and "keypad_data s' = keypad_data s"
    and "keypad_bits_read s' = keypad_bits_read s"
    and "last_read s' = micros_edge i"
    and "last_clock s'"
    and "datapin s' = datapin s"
    and "io_log s' =
       io_log s @ [DigitalRead (clockpin s), DigitalRead (datapin s), DigitalRead (pgmpin s),
                   Micros, Micros, PinMode (datapin s) INPUT] @
       (if datapin_mode s' = OUTPUT then [PinMode (datapin s) OUTPUT] else [])"
proof -
  from run obtain s2 s3 s4 where
    f: "falling_edge i (sample_and_sync i s) = Some s2" and
    r: "rising_edge i s2 = Some s3" and
    c: "frame_complete s3 = Some s4" and
    s': "s' = s4\<lparr>last_clock := clock_in i\<rparr>" and
    cf: "completes_frame s i = (synchronized s3 \<and> controller_bits_read s3 = 16)"
    by (rule processClockCycle_stages)
  have ng: "\<not> idle_gap i s"
    using edge idle_gap_clock by blast
  have s2: "s2 = sample_and_sync i s"
    using f edge by (simp add: falling_edge_no_edge)
  have lc: "\<not> last_clock s2"
    using s2 edge by (simp add: sample_and_sync_keeps)
  have le: "\<not> 15 < controller_bits_read s2" and
    s3: "s3 = transmit_bit (release_line (sanity_check (first_bit (store_bits i s2))))"
    using r edge lc by (auto simp add: rising_edge_edge split: if_splits)
  note in_s = sample_and_sync_keeps sample_and_sync_no_idle [OF ng]
  have b2: "controller_bits_read s2 = controller_bits_read s"
    by (simp add: s2 in_s)
  show bound: "controller_bits_read s \<le> 15"
    using le b2 by (simp add: not_less)
  have p1: "controller_bits_read s + 1 = 1 \<longleftrightarrow> controller_bits_read s = 0"
    by simp
  have p7: "controller_bits_read s + 1 = 7 \<longleftrightarrow> controller_bits_read s = 6"
    using add_right_cancel [of "controller_bits_read s" 1 6] by simp
  have p16: "controller_bits_read s + 1 = 16 \<longleftrightarrow> controller_bits_read s = 15"
    using bound by (auto simp add: word_le_nat_alt word_unat_eq_iff unat_word_ariths)
  have p8: "controller_bits_read s + 1 < 8 \<longleftrightarrow> controller_bits_read s < 7"
    using bound by (auto simp add: word_le_nat_alt word_less_nat_alt unat_word_ariths)
  have t3: "transmitting s3 =
       ((transmitting s \<or>
          synchronized s \<and> controller_bits_read s = 0 \<and> key_to_send s \<noteq> 0) \<and>
        controller_bits_read s < 7)"
    by (simp add: s3 s2 in_s p1 p8)
  have t': "transmitting s' = transmitting s3"
    using frame_complete_keeps [OF c] by (simp add: s')
  show "transmitting s' =
       ((transmitting s \<or>
          synchronized s \<and> controller_bits_read s = 0 \<and> key_to_send s \<noteq> 0) \<and>
        controller_bits_read s < 7)"
    using t3 t' by simp
  have t3': "(transmitting (sanity_check (first_bit (store_bits i s2)))) = transmitting s'"
    using t3 t' by (simp add: s3)
  have m3: "datapin_mode s3 =
       (if transmitting s' \<and> bit (key_to_send s) (7 - unat (controller_bits_read s + 1))
        then OUTPUT else INPUT)"
    using t3' by (simp add: s3 s2 in_s)
  show m': "datapin_mode s' =
       (if transmitting s' \<and> bit (key_to_send s) (7 - unat (controller_bits_read s + 1))
        then OUTPUT else INPUT)"
    using frame_complete_keeps [OF c] m3 by (simp add: s')
  show "keyHoldCycles s' =
       (if transmitting s' \<and> controller_bits_read s = 6 \<and> 0 < keyHoldCycles s
        then keyHoldCycles s - 1 else keyHoldCycles s)"
    using frame_complete_keeps [OF c] t3' by (simp add: s' s3 s2 in_s p7)
  show "key_to_send s' =
       (if transmitting s' \<and> controller_bits_read s = 6 \<and> keyHoldCycles s \<le> 1
        then 0 else key_to_send s)"
    using frame_complete_keeps [OF c] t3' by (simp add: s' s3 s2 in_s p7)
  show "cyclesWithoutKey s' =
       (if synchronized s \<and> controller_bits_read s = 0
        then if key_to_send s \<noteq> 0 then 0 else cyclesWithoutKey s + 1
        else cyclesWithoutKey s)"
    using frame_complete_keeps [OF c] by (simp add: s' s3 s2 in_s p1)
  have sy3: "synchronized s3 = synchronized s" and
    b3: "controller_bits_read s3 = controller_bits_read s + 1"
    by (simp_all add: s3 s2 in_s)
  show cf': "completes_frame s i = (synchronized s \<and> controller_bits_read s = 15)"
    by (simp add: cf sy3 b3 p16)
  show "synchronized s' = (synchronized s \<and> controller_bits_read s \<noteq> 15)"
  proof (cases "synchronized s \<and> controller_bits_read s = 15")
    case True
    then show ?thesis
      using frame_complete_fields [OF c] sy3 b3 p16 by (simp add: s')
  next
    case False
    then have "s4 = s3"
      using c frame_complete_noop [of s3] sy3 b3 p16 by simp
    then show ?thesis using False sy3 by (auto simp add: s')
  qed
  show "controller_bits_read s' =
       (if synchronized s \<and> controller_bits_read s = 15 then 0
        else controller_bits_read s + 1)"
  proof (cases "synchronized s \<and> controller_bits_read s = 15")
    case True
    then show ?thesis
      using frame_complete_fields [OF c] sy3 b3 p16 by (simp add: s')
  next
    case False
    then have "s4 = s3"
      using c frame_complete_noop [of s3] sy3 b3 p16 by simp
    then show ?thesis using False b3 by (auto simp add: s')
  qed
  show "controller_data s' =
       controller_data s OR push_bit (15 - unat (controller_bits_read s)) (of_bool (data_in i))"
    using frame_complete_keeps [OF c] by (simp add: s' s3 s2 in_s)
  show "pc16out_data s' =
       pc16out_data s OR push_bit (15 - unat (controller_bits_read s)) (of_bool (pgm_in i))"
    using frame_complete_keeps [OF c] by (simp add: s' s3 s2 in_s)
  show "keypad_data s' = keypad_data s"
    using frame_complete_keeps [OF c] by (simp add: s' s3 s2 in_s)
  show "keypad_bits_read s' = keypad_bits_read s"
    using frame_complete_keeps [OF c] by (simp add: s' s3 s2 in_s)
  show "last_read s' = micros_edge i"
    using frame_complete_keeps [OF c] by (simp add: s' s3 s2 in_s)
  show "last_clock s'"
    using edge by (simp add: s')
  show "datapin s' = datapin s"
    using frame_complete_keeps [OF c] by (simp add: s' s3 s2 in_s)
  have "io_log s3 =
       io_log s @ [DigitalRead (clockpin s), DigitalRead (datapin s), DigitalRead (pgmpin s),
                   Micros, Micros, PinMode (datapin s) INPUT] @
       (if transmitting s' \<and> bit (key_to_send s) (7 - unat (controller_bits_read s + 1))
        then [PinMode (datapin s) OUTPUT] else [])"
    using t3' by (simp add: s3 s2 in_s)
  then show "io_log s' =
       io_log s @ [DigitalRead (clockpin s), DigitalRead (datapin s), DigitalRead (pgmpin s),
                   Micros, Micros, PinMode (datapin s) INPUT] @
       (if datapin_mode s' = OUTPUT then [PinMode (datapin s) OUTPUT] else [])"
    using frame_complete_keeps [OF c] m' by (simp add: s')
qed


text \<open>A call that is not on a rising edge.\<close>

lemma quiet_call_keeps:
  assumes run: "processClockCycle s i = Some s'"
    and edge: "\<not> (clock_in i \<and> \<not> last_clock s)"
  shows "key_to_send s' = key_to_send s"
    and "keyHoldCycles s' = keyHoldCycles s"
    and "transmitting s' = transmitting s"
    and "cyclesWithoutKey s' = cyclesWithoutKey s"
    and "datapin_mode s' = datapin_mode s"
    and "datapin s' = datapin s"
    and "last_read s' = last_read s"
    and "last_clock s' = clock_in i"
proof -
  from run obtain s2 s3 s4 where
    f: "falling_edge i (sample_and_sync i s) = Some s2" and
    r: "rising_edge i s2 = Some s3" and
    c: "frame_complete s3 = Some s4" and
    s': "s' = s4\<lparr>last_clock := clock_in i\<rparr>"
    by (rule processClockCycle_stages)
  have lc: "last_clock s2 = last_clock s"
    using falling_edge_keeps [OF f] by (simp add: sample_and_sync_keeps)
  have s3: "s3 = s2"
    using r edge lc by (simp add: rising_edge_no_edge)
  note k = frame_complete_keeps [OF c] falling_edge_keeps [OF f] sample_and_sync_keeps
  show "key_to_send s' = key_to_send s" by (simp add: s' s3 k)
  show "keyHoldCycles s' = keyHoldCycles s" by (simp add: s' s3 k)
  show "transmitting s' = transmitting s" by (simp add: s' s3 k)
  show "cyclesWithoutKey s' = cyclesWithoutKey s" by (simp add: s' s3 k)
  show "datapin_mode s' = datapin_mode s" by (simp add: s' s3 k)
  show "datapin s' = datapin s" by (simp add: s' s3 k)
  show "last_read s' = last_read s" by (simp add: s' s3 k)
  show "last_clock s' = clock_in i" by (simp add: s')
qed

lemma quiet_call_idle_gap:
  assumes run: "processClockCycle s i = Some s'"
    and gap: "idle_gap i s"
  shows "synchronized s'"
    and "controller_bits_read s' = 0"
    and "controller_data s' = 0"
    and "pc16out_data s' = 0"
    and "keypad_data s' = 0"
    and "keypad_bits_read s' = 0"
    and "keypad_bits_sent s' = 0"
    and "\<not> completes_frame s i"
    and "io_log s' = io_log s @ [DigitalRead (clockpin s), DigitalRead (datapin s),
                                 DigitalRead (pgmpin s), Micros]"
proof -
  from run obtain s2 s3 s4 where
    f: "falling_edge i (sample_and_sync i s) = Some s2" and
    r: "rising_edge i s2 = Some s3" and
    c: "frame_complete s3 = Some s4" and
    s': "s' = s4\<lparr>last_clock := clock_in i\<rparr>" and
    cf: "completes_frame s i = (synchronized s3 \<and> controller_bits_read s3 = 16)"
    by (rule processClockCycle_stages)
  note z = sample_and_sync_idle [OF gap]
  have s2: "s2 = sample_and_sync i s"
    using f z(2) by (simp add: falling_edge_outside)
  have s3: "s3 = s2"
    using r idle_gap_clock [OF gap] by (simp add: rising_edge_no_edge)
  have s4: "s4 = s3"
    using c frame_complete_noop [of s3] z(2) by (simp add: s3 s2)
  show "synchronized s'" by (simp add: s' s4 s3 s2 z)
  show "controller_bits_read s' = 0" by (simp add: s' s4 s3 s2 z)
  show "controller_data s' = 0" by (simp add: s' s4 s3 s2 z)
  show "pc16out_data s' = 0" by (simp add: s' s4 s3 s2 z)
  show "keypad_data s' = 0" by (simp add: s' s4 s3 s2 z)
  show "keypad_bits_read s' = 0" by (simp add: s' s4 s3 s2 z)
  show "keypad_bits_sent s' = 0" by (simp add: s' s4 s3 s2 z)
  show "\<not> completes_frame s i" by (simp add: cf s3 s2 z)
  show "io_log s' = io_log s @ [DigitalRead (clockpin s), DigitalRead (datapin s),
                                DigitalRead (pgmpin s), Micros]"
    by (simp add: s' s4 s3 s2 sample_and_sync_keeps)
qed

lemma quiet_call_no_gap:
  assumes run: "processClockCycle s i = Some s'"
    and edge: "\<not> (clock_in i \<and> \<not> last_clock s)"
    and gap: "\<not> idle_gap i s"
  shows "completes_frame s i = (synchronized s \<and> controller_bits_read s = 16)"
    and "synchronized s' = (synchronized s \<and> controller_bits_read s \<noteq> 16)"
    and "controller_bits_read s' =
       (if synchronized s \<and> controller_bits_read s = 16 then 0 else controller_bits_read s)"
    and "controller_data s' = controller_data s"
    and "pc16out_data s' = pc16out_data s"
    and "keypad_bits_sent s' = keypad_bits_sent s"
    and "\<not> clock_in i \<and> last_clock s \<and>
         0 < controller_bits_read s \<and> controller_bits_read s < 8 \<Longrightarrow>
         keypad_bits_read s \<le> 6 \<and>
         keypad_data s' =
           keypad_data s OR
           push_bit (6 - unat (keypad_bits_read s)) (of_bool (\<not> settle_read2 i)) \<and>
         keypad_bits_read s' = keypad_bits_read s + 1 \<and>
         io_log s' = io_log s @ [DigitalRead (clockpin s), DigitalRead (datapin s),
                                 DigitalRead (pgmpin s), Micros,
                                 DigitalRead (datapin s), DelayMicroseconds 100,
                                 DigitalRead (datapin s)]"
    and "\<not> (\<not> clock_in i \<and> last_clock s \<and>
            0 < controller_bits_read s \<and> controller_bits_read s < 8) \<Longrightarrow>
         keypad_data s' = keypad_data s \<and> keypad_bits_read s' = keypad_bits_read s \<and>
         io_log s' = io_log s @ [DigitalRead (clockpin s), DigitalRead (datapin s),
                                 DigitalRead (pgmpin s), Micros]"
proof -
  from run obtain s2 s3 s4 where
    f: "falling_edge i (sample_and_sync i s) = Some s2" and
    r: "rising_edge i s2 = Some s3" and
    c: "frame_complete s3 = Some s4" and
    s': "s' = s4\<lparr>last_clock := clock_in i\<rparr>" and
    cf: "completes_frame s i = (synchronized s3 \<and> controller_bits_read s3 = 16)"
    by (rule processClockCycle_stages)
  note n = sample_and_sync_no_idle [OF gap] sample_and_sync_keeps
  note fk = falling_edge_keeps [OF f]
  have s3: "s3 = s2"
    using r edge fk by (simp add: rising_edge_no_edge n)
  have sy: "synchronized s3 = synchronized s" and b: "controller_bits_read s3 = controller_bits_read s"
    by (simp_all add: s3 fk n)
  show "completes_frame s i = (synchronized s \<and> controller_bits_read s = 16)"
    by (simp add: cf sy b)
  have s4: "\<not> (synchronized s \<and> controller_bits_read s = 16) \<Longrightarrow> s4 = s3"
    using c frame_complete_noop [of s3] sy b by simp
  show "synchronized s' = (synchronized s \<and> controller_bits_read s \<noteq> 16)"
    using frame_complete_fields [OF c] s4 sy b by (cases "synchronized s \<and> controller_bits_read s = 16") (auto simp add: s')
  show "controller_bits_read s' =
       (if synchronized s \<and> controller_bits_read s = 16 then 0 else controller_bits_read s)"
    using frame_complete_fields [OF c] s4 sy b by (cases "synchronized s \<and> controller_bits_read s = 16") (auto simp add: s')
  note ck = frame_complete_keeps [OF c]
  show "controller_data s' = controller_data s" by (simp add: s' ck s3 fk n)
  show "pc16out_data s' = pc16out_data s" by (simp add: s' ck s3 fk n)
  have ks: "keypad_bits_sent s2 = keypad_bits_sent (sample_and_sync i s)"
    using f by (auto simp add: falling_edge_def Let_def split: if_splits)
  show "keypad_bits_sent s' = keypad_bits_sent s" by (simp add: s' ck s3 ks n)
  {
    assume a: "\<not> clock_in i \<and> last_clock s \<and>
         0 < controller_bits_read s \<and> controller_bits_read s < 8"
    then have "falling_edge i (sample_and_sync i s) =
       (if 6 < keypad_bits_read s then None
        else Some ((sample_and_sync i s)\<lparr>keypad_data :=
                     keypad_data s OR push_bit (6 - unat (keypad_bits_read s)) (of_bool (\<not> settle_read2 i)),
                   keypad_bits_read := keypad_bits_read s + 1,
                   io_log := io_log (sample_and_sync i s) @ [DigitalRead (datapin s), DelayMicroseconds 100,
                                         DigitalRead (datapin s)]\<rparr>))"
      using falling_edge_sample [of i "sample_and_sync i s"] by (simp add: n)
    with f have le: "\<not> 6 < keypad_bits_read s" and
      s2: "s2 = (sample_and_sync i s)\<lparr>keypad_data :=
                     keypad_data s OR push_bit (6 - unat (keypad_bits_read s)) (of_bool (\<not> settle_read2 i)),
                   keypad_bits_read := keypad_bits_read s + 1,
                   io_log := io_log (sample_and_sync i s) @ [DigitalRead (datapin s), DelayMicroseconds 100,
                                         DigitalRead (datapin s)]\<rparr>"
      by (auto split: if_splits)
    show "keypad_bits_read s \<le> 6 \<and>
         keypad_data s' =
           keypad_data s OR
           push_bit (6 - unat (keypad_bits_read s)) (of_bool (\<not> settle_read2 i)) \<and>
         keypad_bits_read s' = keypad_bits_read s + 1 \<and>
         io_log s' = io_log s @ [DigitalRead (clockpin s), DigitalRead (datapin s),
                                 DigitalRead (pgmpin s), Micros,
                                 DigitalRead (datapin s), DelayMicroseconds 100,
                                 DigitalRead (datapin s)]"
      using le by (simp add: s' ck s3 s2 n not_less)
  }
  {
    assume a: "\<not> (\<not> clock_in i \<and> last_clock s \<and>
            0 < controller_bits_read s \<and> controller_bits_read s < 8)"
    have "falling_edge i (sample_and_sync i s) = Some (sample_and_sync i s)"
    proof (cases "\<not> clock_in i \<and> last_clock s")
      case True
      with a show ?thesis by (intro falling_edge_outside) (auto simp add: n)
    next
      case False
      then show ?thesis by (intro falling_edge_no_edge) (simp add: n)
    qed
    with f have s2: "s2 = sample_and_sync i s" by simp
    show "keypad_data s' = keypad_data s \<and> keypad_bits_read s' = keypad_bits_read s \<and>
         io_log s' = io_log s @ [DigitalRead (clockpin s), DigitalRead (datapin s),
                                 DigitalRead (pgmpin s), Micros]"
      by (simp add: s' ck s3 s2 n)
  }
qed

lemma processClockCycle_post:
  "processClockCycle s i = Some s' \<Longrightarrow> \<not> (synchronized s' \<and> controller_bits_read s' = 16)"
  by (erule processClockCycle_stages) (auto dest: frame_complete_post)

lemma sendKey_keeps:
  "synchronized (snd (sendKey c n s)) = synchronized s"
  "controller_bits_read (snd (sendKey c n s)) = controller_bits_read s"
  "datapin_mode (snd (sendKey c n s)) = datapin_mode s"
  "cyclesWithoutKey (snd (sendKey c n s)) = cyclesWithoutKey s"
  by (simp_all add: sendKey_def Let_def)

lemma reachable_not_16:
  "reachable s \<Longrightarrow> \<not> (synchronized s \<and> controller_bits_read s = 16)"
proof (induction rule: reachable.induct)
  case (ctor dpin cpin ppin now)
  show ?case by (simp add: PC1550_ctor_def)
next
  case (tick s i s')
  then show ?case by (simp add: processClockCycle_post)
next
  case (key s c n)
  then show ?case by (simp add: sendKey_keeps)
qed

lemma bTransmissionEnd_iff:
  assumes run: "processClockCycle s i = Some s'"
  shows "bTransmissionEnd s' = completes_frame s i"
proof -
  from run obtain s2 s3 s4 where
    f: "falling_edge i (sample_and_sync i s) = Some s2" and
    r: "rising_edge i s2 = Some s3" and
    c: "frame_complete s3 = Some s4" and
    s': "s' = s4\<lparr>last_clock := clock_in i\<rparr>" and
    cf: "completes_frame s i = (synchronized s3 \<and> controller_bits_read s3 = 16)"
    by (rule processClockCycle_stages)
  have e3: "\<not> bTransmissionEnd s3"
  proof (cases "clock_in i \<and> \<not> last_clock s2")
    case True
    then show ?thesis
      using r falling_edge_keeps [OF f]
      by (auto simp add: rising_edge_edge sample_and_sync_keeps split: if_splits)
  next
    case False
    then have "s3 = s2" using r by (simp add: rising_edge_no_edge)
    then show ?thesis
      using falling_edge_keeps [OF f] by (simp add: sample_and_sync_keeps)
  qed
  show ?thesis
  proof (cases "synchronized s3 \<and> controller_bits_read s3 = 16")
    case True
    then show ?thesis using frame_complete_fields [OF c] cf by (simp add: s')
  next
    case False
    then have "s4 = s3" using c frame_complete_noop [of s3] by simp
    then show ?thesis using False cf e3 by (simp add: s')
  qed
qed

lemma completes_frame_reachable:
  assumes "reachable s" "processClockCycle s i = Some s'"
  shows "completes_frame s i =
     (synchronized s \<and> controller_bits_read s = 15 \<and> clock_in i \<and> \<not> last_clock s)"
proof (cases "clock_in i \<and> \<not> last_clock s")
  case True
  then show ?thesis using rising_call(7) [OF assms(2)] by simp
next
  case False
  show ?thesis
  proof (cases "idle_gap i s")
    case True
    then show ?thesis using quiet_call_idle_gap(8) [OF assms(2)] False by simp
  next
    case g: False
    show ?thesis
      using quiet_call_no_gap(1) [OF assms(2) False g] reachable_not_16 [OF assms(1)] False
      by auto
  qed
qed

lemma rising_edge_synchronized:
  "rising_edge i s = Some s' \<Longrightarrow> synchronized s' = synchronized s"
  by (auto simp add: rising_edge_def split: if_splits)

lemma completes_frame_synchronized:
  assumes "completes_frame s i"
  shows "synchronized s \<and> \<not> idle_gap i s"
proof -
  from assms obtain s2 s3 where
    f: "falling_edge i (sample_and_sync i s) = Some s2" and
    r: "rising_edge i s2 = Some s3" and
    c: "synchronized s3" "controller_bits_read s3 = 16"
    by (auto simp add: completes_frame_def split: option.splits)
  have ng: "\<not> idle_gap i s"
  proof
    assume gap: "idle_gap i s"
    have "s3 = s2"
      using r idle_gap_clock [OF gap] by (simp add: rising_edge_no_edge)
    then have "controller_bits_read s3 = 0"
      using falling_edge_keeps [OF f] sample_and_sync_idle [OF gap] by simp
    with c show False by simp
  qed
  moreover have "synchronized s"
    using c(1) rising_edge_synchronized [OF r] falling_edge_keeps [OF f]
      sample_and_sync_no_idle [OF ng] by simp
  ultimately show ?thesis by simp
qed


lemma rising_edge_keeps:
  assumes "rising_edge i s = Some s'"
  shows "available_controller_data s' = available_controller_data s"
    "available_pc16out_data s' = available_pc16out_data s"
    "available_keypad_data s' = available_keypad_data s"
    "key_released_data s' = key_released_data s"
    "bKeyPressed s' = bKeyPressed s"
    "iConsecutiveKeyPressCycles s' = iConsecutiveKeyPressCycles s"
    "iConsecutiveBeeps s' = iConsecutiveBeeps s"
    "bStateChanged s' = bStateChanged s"
    "keypad_data s' = keypad_data s"
  using assms by (auto simp add: rising_edge_def split: if_splits)

lemma frame_complete_classify:
  assumes "frame_complete s = Some s'" "synchronized s" "controller_bits_read s = 16"
  shows "keypad_data s = 0 \<Longrightarrow> available_keypad_data s \<noteq> 0 \<Longrightarrow>
           key_released_data s' = available_keypad_data s \<and> \<not> bKeyPressed s' \<and>
           iConsecutiveKeyPressCycles s' = iConsecutiveKeyPressCycles s"
    and "keypad_data s = 0 \<Longrightarrow> available_keypad_data s = 0 \<Longrightarrow>
           key_released_data s' = 0 \<and> \<not> bKeyPressed s' \<and> iConsecutiveKeyPressCycles s' = 0"
    and "keypad_data s \<noteq> 0 \<Longrightarrow> available_keypad_data s = keypad_data s \<Longrightarrow>
           key_released_data s' = 0 \<and> \<not> bKeyPressed s' \<and>
           iConsecutiveKeyPressCycles s' = iConsecutiveKeyPressCycles s + 1"
    and "keypad_data s \<noteq> 0 \<Longrightarrow> available_keypad_data s = 0 \<Longrightarrow>
           key_released_data s' = 0 \<and> bKeyPressed s' \<and> iConsecutiveKeyPressCycles s' = 1"
    and "keypad_data s \<noteq> 0 \<Longrightarrow> available_keypad_data s \<noteq> 0 \<Longrightarrow>
         available_keypad_data s \<noteq> keypad_data s \<Longrightarrow>
           key_released_data s' = available_keypad_data s \<and> bKeyPressed s' \<and>
           iConsecutiveKeyPressCycles s' = 1"
  using assms
  by (auto simp add: frame_complete_def classify_keypad_def Let_def split: if_splits)

text \<open>A call that completes a frame.\<close>

lemma completing_call:
  assumes run: "processClockCycle s i = Some s'"
    and cf: "completes_frame s i"
  shows "available_controller_data s' = controller_data s'"
    and "available_pc16out_data s' = pc16out_data s'"
    and "available_keypad_data s' = keypad_data s'"
    and "iConsecutiveBeeps s' = (if Beep s' then iConsecutiveBeeps s + 1 else 0)"
    and "bStateChanged s' = (available_controller_data s \<noteq> controller_data s')"
    and "bTransmissionEnd s'"
    and "\<not> synchronized s'"
    and "controller_bits_read s' = 0"
    and "keypad_data s' = 0 \<Longrightarrow> available_keypad_data s \<noteq> 0 \<Longrightarrow>
           key_released_data s' = available_keypad_data s \<and> \<not> bKeyPressed s' \<and>
           iConsecutiveKeyPressCycles s' = iConsecutiveKeyPressCycles s"
    and "keypad_data s' = 0 \<Longrightarrow> available_keypad_data s = 0 \<Longrightarrow>
           key_released_data s' = 0 \<and> \<not> bKeyPressed s' \<and> iConsecutiveKeyPressCycles s' = 0"
proof -
  from run obtain s2 s3 s4 where
    f: "falling_edge i (sample_and_sync i s) = Some s2" and
    r: "rising_edge i s2 = Some s3" and
    c: "frame_complete s3 = Some s4" and
    s': "s' = s4\<lparr>last_clock := clock_in i\<rparr>" and
    cf3: "completes_frame s i = (synchronized s3 \<and> controller_bits_read s3 = 16)"
    by (rule processClockCycle_stages)
  from cf cf3 have sy: "synchronized s3" and b: "controller_bits_read s3 = 16"
    by simp_all
  note fields = frame_complete_fields [OF c sy b]
  note keeps = frame_complete_keeps [OF c]
  note before = rising_edge_keeps [OF r] falling_edge_keeps [OF f] sample_and_sync_keeps
  show "available_controller_data s' = controller_data s'"
    by (simp add: s' fields keeps)
  show "available_pc16out_data s' = pc16out_data s'"
    by (simp add: s' fields keeps)
  show "available_keypad_data s' = keypad_data s'"
    by (simp add: s' fields keeps)
  have "Beep s' = bit (controller_data s3) 0"
    by (simp add: Beep_bit s' fields)
  then show "iConsecutiveBeeps s' = (if Beep s' then iConsecutiveBeeps s + 1 else 0)"
    by (simp add: s' fields before)
  show "bStateChanged s' = (available_controller_data s \<noteq> controller_data s')"
    by (simp add: s' fields keeps before)
  show "bTransmissionEnd s'" "\<not> synchronized s'" "controller_bits_read s' = 0"
    by (simp_all add: s' fields)
  have kd: "keypad_data s' = keypad_data s3" and av: "available_keypad_data s3 = available_keypad_data s"
    and cnt: "iConsecutiveKeyPressCycles s3 = iConsecutiveKeyPressCycles s"
    by (simp_all add: s' keeps before)
  show "keypad_data s' = 0 \<Longrightarrow> available_keypad_data s \<noteq> 0 \<Longrightarrow>
           key_released_data s' = available_keypad_data s \<and> \<not> bKeyPressed s' \<and>
           iConsecutiveKeyPressCycles s' = iConsecutiveKeyPressCycles s"
    using frame_complete_classify(1) [OF c sy b] kd av cnt by (simp add: s')
  show "keypad_data s' = 0 \<Longrightarrow> available_keypad_data s = 0 \<Longrightarrow>
           key_released_data s' = 0 \<and> \<not> bKeyPressed s' \<and> iConsecutiveKeyPressCycles s' = 0"
    using frame_complete_classify(2) [OF c sy b] kd av cnt by (simp add: s')
qed

section \<open>Calls without a defined result, and runs\<close>

lemma idle_gap_call_defined:
  assumes gap: "idle_gap i s"
  shows "\<exists>s'. processClockCycle s i = Some s'"
proof -
  note z = sample_and_sync_idle [OF gap]
  have f: "falling_edge i (sample_and_sync i s) = Some (sample_and_sync i s)"
    using z(2) by (simp add: falling_edge_outside)
  have r: "rising_edge i (sample_and_sync i s) = Some (sample_and_sync i s)"
    using idle_gap_clock [OF gap] by (simp add: rising_edge_no_edge)
  have c: "frame_complete (sample_and_sync i s) = Some (sample_and_sync i s)"
    using z(2) by (simp add: frame_complete_noop)
  show ?thesis by (simp add: processClockCycle_def f r c)
qed

lemma run_append:
  "run s (xs @ ys) = (case run s xs of None \<Rightarrow> None | Some s' \<Rightarrow> run s' ys)"
  by (induction xs arbitrary: s) (auto split: option.splits)

lemma frame_body_run: "frame_body s is = Some s' \<Longrightarrow> run s is = Some s'"
  by (induction "is" arbitrary: s) (auto split: if_splits option.splits)

lemma frame_run: "frame s is = Some s' \<Longrightarrow> run s is = Some s'"
proof (induction "is" arbitrary: s)
  case Nil
  then show ?case by simp
next
  case (Cons i "is")
  show ?case
  proof (cases "clock_in i \<and> \<not> last_clock s")
    case True
    with Cons.prems have "frame_body s (i # is) = Some s'"
      by (auto split: if_splits)
    then show ?thesis by (rule frame_body_run)
  next
    case False
    with Cons.prems obtain s1 where "processClockCycle s i = Some s1" "frame s1 is = Some s'"
      by (auto split: option.splits)
    then show ?thesis using Cons.IH by simp
  qed
qed

lemma frames_run: "frames s fs = Some s' \<Longrightarrow> run s (concat fs) = Some s'"
proof (induction fs arbitrary: s)
  case Nil
  then show ?case by simp
next
  case (Cons f fs)
  then obtain s1 where "frame s f = Some s1" "frames s1 fs = Some s'"
    by (auto split: option.splits)
  then show ?case using Cons.IH frame_run by (simp add: run_append)
qed

lemma frame_complete_None_iff:
  "frame_complete s = None \<longleftrightarrow>
     synchronized s \<and> controller_bits_read s = 16 \<and> bit (controller_data s) 0 \<and>
     iConsecutiveBeeps s = INT_MAX"
proof -
  have "Beep (classify_keypad (s\<lparr>bStateChanged := b\<rparr>)
               \<lparr>available_keypad_data := k, available_controller_data := controller_data s,
                available_pc16out_data := p\<rparr>) = bit (controller_data s) 0" for b k p
    by (simp add: Beep_bit)
  moreover have "controller_data (classify_keypad t) = controller_data t"
    and "iConsecutiveBeeps (classify_keypad t) = iConsecutiveBeeps t" for t
    by (simp_all add: classify_keypad_def)
  ultimately show ?thesis
    by (auto simp add: frame_complete_def Let_def)
qed

text \<open>The calls that have no defined result.\<close>

lemma processClockCycle_None_iff:
  "processClockCycle s i = None \<longleftrightarrow>
     (\<not> clock_in i \<and> last_clock s \<and> \<not> idle_gap i s \<and>
      0 < controller_bits_read s \<and> controller_bits_read s < 8 \<and> 6 < keypad_bits_read s) \<or>
     (clock_in i \<and> \<not> last_clock s \<and> 15 < controller_bits_read s) \<or>
     (clock_in i \<and> \<not> last_clock s \<and> synchronized s \<and> controller_bits_read s = 15 \<and>
      (bit (controller_data s) 0 \<or> data_in i) \<and> iConsecutiveBeeps s = INT_MAX) \<or>
     (\<not> (clock_in i \<and> \<not> last_clock s) \<and> \<not> idle_gap i s \<and> synchronized s \<and>
      controller_bits_read s = 16 \<and> bit (controller_data s) 0 \<and>
      iConsecutiveBeeps s = INT_MAX)"
proof (cases "clock_in i \<and> \<not> last_clock s")
  case True
  then have edge: "clock_in i" "\<not> last_clock s" by simp_all
  have ng: "\<not> idle_gap i s" using edge idle_gap_clock by blast
  note in_s = sample_and_sync_keeps sample_and_sync_no_idle [OF ng]
  have f: "falling_edge i (sample_and_sync i s) = Some (sample_and_sync i s)"
    using edge by (simp add: falling_edge_no_edge)
  show ?thesis
  proof (cases "15 < controller_bits_read s")
    case True
    then have "rising_edge i (sample_and_sync i s) = None"
      using edge by (simp add: rising_edge_edge in_s)
    then show ?thesis using True edge by (simp add: processClockCycle_def f)
  next
    case False
    let ?s3 = "transmit_bit (release_line (sanity_check (first_bit (store_bits i (sample_and_sync i s)))))"
    have r: "rising_edge i (sample_and_sync i s) = Some ?s3"
      using edge False by (simp add: rising_edge_edge in_s)
    have le: "controller_bits_read s \<le> 15" using False by (simp add: not_less)
    have p16: "controller_bits_read s + 1 = 16 \<longleftrightarrow> controller_bits_read s = 15"
      using le by (auto simp add: word_le_nat_alt word_unat_eq_iff unat_word_ariths)
    have b0: "bit (controller_data s OR push_bit (15 - unat (controller_bits_read s)) (of_bool (data_in i))) 0
        \<longleftrightarrow> bit (controller_data s) 0 \<or> controller_bits_read s = 15 \<and> data_in i"
      using le by (auto simp add: bit_simps word_le_nat_alt word_unat_eq_iff)
    have "processClockCycle s i = None \<longleftrightarrow> frame_complete ?s3 = None"
      by (simp add: processClockCycle_def f r split: option.splits)
    also have "\<dots> \<longleftrightarrow> synchronized s \<and> controller_bits_read s = 15 \<and>
        (bit (controller_data s) 0 \<or> data_in i) \<and> iConsecutiveBeeps s = INT_MAX"
      using b0 by (auto simp add: frame_complete_None_iff in_s p16)
    finally show ?thesis using edge False by auto
  qed
next
  case False
  have r: "rising_edge i t = Some t" if "last_clock t = last_clock s" for t
    using False that by (simp add: rising_edge_no_edge)
  show ?thesis
  proof (cases "idle_gap i s")
    case True
    then show ?thesis using idle_gap_call_defined [OF True] False by auto
  next
    case g: False
    note in_s = sample_and_sync_keeps sample_and_sync_no_idle [OF g]
    show ?thesis
    proof (cases "\<not> clock_in i \<and> last_clock s \<and>
         0 < controller_bits_read s \<and> controller_bits_read s < 8")
      case True
      have bn: "controller_bits_read s \<noteq> 16" using True by auto
      show ?thesis
      proof (cases "6 < keypad_bits_read s")
        case k: True
        then have "falling_edge i (sample_and_sync i s) = None"
          using True falling_edge_sample [of i "sample_and_sync i s"] by (simp add: in_s)
        then show ?thesis using True k g by (simp add: processClockCycle_def)
      next
        case k: False
        then obtain s2 where f: "falling_edge i (sample_and_sync i s) = Some s2"
          using True falling_edge_sample [of i "sample_and_sync i s"] by (simp add: in_s)
        note fk = falling_edge_keeps [OF f]
        have r2: "rising_edge i s2 = Some s2"
          using r [of s2] fk by (simp add: in_s)
        have c: "frame_complete s2 = Some s2"
          using bn fk by (simp add: frame_complete_noop in_s)
        show ?thesis using True k bn False by (auto simp add: processClockCycle_def f r2 c)
      qed
    next
      case n: False
      have f: "falling_edge i (sample_and_sync i s) = Some (sample_and_sync i s)"
      proof (cases "\<not> clock_in i \<and> last_clock s")
        case True
        with n show ?thesis by (intro falling_edge_outside) (auto simp add: in_s)
      next
        case False
        then show ?thesis by (intro falling_edge_no_edge) (simp add: in_s)
      qed
      have r2: "rising_edge i (sample_and_sync i s) = Some (sample_and_sync i s)"
        by (rule r) (simp add: in_s)
      have "processClockCycle s i = None \<longleftrightarrow> frame_complete (sample_and_sync i s) = None"
        by (simp add: processClockCycle_def f r2 split: option.splits)
      then show ?thesis using n False g by (auto simp add: frame_complete_None_iff in_s)
    qed
  qed
qed

section \<open>Frame completion\<close>

text \<open>
  C1: on a call in which the frame position reaches 16 while synchronized (a rising edge
  taken with \<open>synchronized\<close> set and 15 bits read), the three accumulators, including
  the bit of this call, are copied into their available snapshots, the consecutive-beep
  counter is incremented when the beep bit of the new snapshot is set and zeroed
  otherwise, \<open>bTransmissionEnd\<close> is set, \<open>synchronized\<close> is cleared and the frame
  position is 0; no call made on the resulting object completes a frame. After every
  call \<open>bTransmissionEnd\<close> tells whether that very call completed a frame, and from a
  reachable object the calls that complete a frame are exactly the ones described.
  Such a call has a defined result unless the beep bit is set while the counter holds
  \<open>INT_MAX\<close>.
\<close>

theorem frame_completion:
  "(synchronized s \<and> controller_bits_read s = 15 \<and> clock_in i \<and> \<not> last_clock s \<longrightarrow>
      (processClockCycle s i = None) =
        ((bit (controller_data s) 0 \<or> data_in i) \<and> iConsecutiveBeeps s = INT_MAX)) \<and>
   (processClockCycle s i = Some s' \<longrightarrow>
      (synchronized s \<and> controller_bits_read s = 15 \<and> clock_in i \<and> \<not> last_clock s \<longrightarrow>
         available_controller_data s' = (controller_data s OR of_bool (data_in i)) \<and>
         available_pc16out_data s' = (pc16out_data s OR of_bool (pgm_in i)) \<and>
         available_keypad_data s' = keypad_data s \<and>
         iConsecutiveBeeps s' = (if Beep s' then iConsecutiveBeeps s + 1 else 0) \<and>
         bTransmissionEnd s' \<and> \<not> synchronized s' \<and> controller_bits_read s' = 0 \<and>
         (\<forall>j. \<not> completes_frame s' j)) \<and>
      bTransmissionEnd s' = completes_frame s i \<and>
      (reachable s \<longrightarrow>
         completes_frame s i =
           (synchronized s \<and> controller_bits_read s = 15 \<and> clock_in i \<and> \<not> last_clock s)))"
proof (intro conjI impI)
  assume "synchronized s \<and> controller_bits_read s = 15 \<and> clock_in i \<and> \<not> last_clock s"
  then show "(processClockCycle s i = None) =
      ((bit (controller_data s) 0 \<or> data_in i) \<and> iConsecutiveBeeps s = INT_MAX)"
    by (auto simp add: processClockCycle_None_iff)
next
  assume run: "processClockCycle s i = Some s'"
    and h: "synchronized s \<and> controller_bits_read s = 15 \<and> clock_in i \<and> \<not> last_clock s"
  then have edge: "clock_in i" "\<not> last_clock s" by simp_all
  note rc = rising_call [OF run edge]
  have cf: "completes_frame s i" using rc(7) h by simp
  note cc = completing_call [OF run cf]
  show "available_controller_data s' = (controller_data s OR of_bool (data_in i))"
    using cc(1) rc(10) h by simp
  show "available_pc16out_data s' = (pc16out_data s OR of_bool (pgm_in i))"
    using cc(2) rc(11) h by simp
  show "available_keypad_data s' = keypad_data s"
    using cc(3) rc(12) by simp
  show "iConsecutiveBeeps s' = (if Beep s' then iConsecutiveBeeps s + 1 else 0)"
    by (rule cc(4))
  show "bTransmissionEnd s'" "\<not> synchronized s'" "controller_bits_read s' = 0"
    by (rule cc)+
  show "\<forall>j. \<not> completes_frame s' j"
    using completes_frame_synchronized cc(7) by blast
next
  assume run: "processClockCycle s i = Some s'"
  show "bTransmissionEnd s' = completes_frame s i"
    by (rule bTransmissionEnd_iff [OF run])
next
  assume "processClockCycle s i = Some s'" "reachable s"
  then show "completes_frame s i =
      (synchronized s \<and> controller_bits_read s = 15 \<and> clock_in i \<and> \<not> last_clock s)"
    using completes_frame_reachable by blast
qed

theorem frame_completion_witness:
  "\<exists>s'. processClockCycle
          (PC1550_ctor 17 18 15 0
             \<lparr>synchronized := True, controller_bits_read := 15, last_clock := False,
              controller_data := 0b1000000010000000, keypad_data := 0b00100010\<rparr>)
          (poll True True False 1000) = Some s' \<and>
        available_controller_data s' = 0b1000000010000001 \<and>
        available_pc16out_data s' = 0 \<and>
        available_keypad_data s' = 0b00100010 \<and>
        iConsecutiveBeeps s' = 1 \<and>
        bTransmissionEnd s' \<and> \<not> synchronized s' \<and> controller_bits_read s' = 0"
proof -
  let ?s = "PC1550_ctor 17 18 15 0
             \<lparr>synchronized := True, controller_bits_read := 15, last_clock := False,
              controller_data := 0b1000000010000000, keypad_data := 0b00100010\<rparr>"
  let ?i = "poll True True False 1000"
  obtain s' where run: "processClockCycle ?s ?i = Some s'"
    by (simp add: processClockCycle_def sample_and_sync_def idle_gap_def falling_edge_def
        rising_edge_def frame_complete_def Beep_def INT_MAX_def PC1550_ctor_def poll_def
        store_bits_def first_bit_def sanity_check_def release_line_def transmit_bit_def
        classify_keypad_def Let_def)
  have pre: "synchronized ?s \<and> controller_bits_read ?s = 15 \<and> clock_in ?i \<and> \<not> last_clock ?s"
    by (simp add: poll_def)
  have beep: "Beep s' = bit (available_controller_data s') 0"
    by (rule Beep_bit)
  from frame_completion [where s = ?s and i = ?i and s' = s'] run pre beep show ?thesis
    by (simp add: PC1550_ctor_def poll_def)
qed

section \<open>Resynchronization\<close>

lemma or_and_absorb: "(a OR b) AND a = (a :: 'a :: len word)"
  by (simp add: word_bw_comms(1) word_ao_absorbs)

text \<open>
  C2 (amended): a call declares synchronization exactly when the clock line reads
  idle (\<open>clock\<close> false) and the time since \<open>last_read\<close> is strictly between 25000 and
  28000 microseconds. Such a call returns with \<open>synchronized\<close> set and the frame
  position, the three accumulators and the keypad bit counter zero. Any other call,
  in particular one at exactly 25000 or 28000 microseconds, does not resynchronize: it
  never turns \<open>synchronized\<close> on, resets the frame position only by completing a frame
  and clears no bit of an accumulator.
\<close>

theorem resynchronization:
  "idle_gap i s =
     (\<not> clock_in i \<and> 25000 < micros_entry i - last_read s \<and>
      micros_entry i - last_read s < 28000) \<and>
   (idle_gap i s \<longrightarrow>
      (\<exists>s'. processClockCycle s i = Some s' \<and> synchronized s' \<and>
            controller_bits_read s' = 0 \<and> controller_data s' = 0 \<and> pc16out_data s' = 0 \<and>
            keypad_data s' = 0 \<and> keypad_bits_read s' = 0)) \<and>
   (\<not> idle_gap i s \<longrightarrow>
      (\<forall>s'. processClockCycle s i = Some s' \<longrightarrow>
            (synchronized s' \<longrightarrow> synchronized s) \<and>
            (controller_bits_read s' = 0 \<longrightarrow>
               controller_bits_read s = 0 \<or> completes_frame s i) \<and>
            controller_data s' AND controller_data s = controller_data s \<and>
            pc16out_data s' AND pc16out_data s = pc16out_data s \<and>
            keypad_data s' AND keypad_data s = keypad_data s))"
proof -
  have def: "idle_gap i s =
     (\<not> clock_in i \<and> 25000 < micros_entry i - last_read s \<and>
      micros_entry i - last_read s < 28000)"
    by (simp add: idle_gap_def Let_def)
  have pos: "\<exists>s'. processClockCycle s i = Some s' \<and> synchronized s' \<and>
            controller_bits_read s' = 0 \<and> controller_data s' = 0 \<and> pc16out_data s' = 0 \<and>
            keypad_data s' = 0 \<and> keypad_bits_read s' = 0" if gap: "idle_gap i s"
  proof -
    from gap obtain s' where run: "processClockCycle s i = Some s'"
      using idle_gap_call_defined by blast
    note q = quiet_call_idle_gap [OF run gap]
    show ?thesis using run q by blast
  qed
  have neg: "(synchronized s' \<longrightarrow> synchronized s) \<and>
            (controller_bits_read s' = 0 \<longrightarrow>
               controller_bits_read s = 0 \<or> completes_frame s i) \<and>
            controller_data s' AND controller_data s = controller_data s \<and>
            pc16out_data s' AND pc16out_data s = pc16out_data s \<and>
            keypad_data s' AND keypad_data s = keypad_data s"
    if gap: "\<not> idle_gap i s" and run: "processClockCycle s i = Some s'" for s'
  proof (intro conjI)
  show "synchronized s' \<longrightarrow> synchronized s"
  proof (cases "clock_in i \<and> \<not> last_clock s")
    case True
    then show ?thesis using rising_call(8) [OF run] by simp
  next
    case False
    then show ?thesis using quiet_call_no_gap(2) [OF run False gap] by simp
  qed
  show "controller_bits_read s' = 0 \<longrightarrow> controller_bits_read s = 0 \<or> completes_frame s i"
  proof (cases "clock_in i \<and> \<not> last_clock s")
    case True
    then have edge: "clock_in i" "\<not> last_clock s" by simp_all
    note rc = rising_call [OF run edge]
    have "controller_bits_read s + 1 \<noteq> 0"
      using rc(1) by (auto simp add: word_le_nat_alt word_unat_eq_iff unat_word_ariths)
    then show ?thesis using rc(7) rc(9) by (auto split: if_splits)
  next
    case False
    then show ?thesis
      using quiet_call_no_gap(1,3) [OF run False gap] by (auto split: if_splits)
  qed
  show "controller_data s' AND controller_data s = controller_data s"
  proof (cases "clock_in i \<and> \<not> last_clock s")
    case True
    then show ?thesis using rising_call(10) [OF run] by (simp add: or_and_absorb)
  next
    case False
    then show ?thesis using quiet_call_no_gap(4) [OF run False gap] by simp
  qed
  show "pc16out_data s' AND pc16out_data s = pc16out_data s"
  proof (cases "clock_in i \<and> \<not> last_clock s")
    case True
    then show ?thesis using rising_call(11) [OF run] by (simp add: or_and_absorb)
  next
    case False
    then show ?thesis using quiet_call_no_gap(5) [OF run False gap] by simp
  qed
  show "keypad_data s' AND keypad_data s = keypad_data s"
  proof (cases "clock_in i \<and> \<not> last_clock s")
    case True
    then show ?thesis using rising_call(12) [OF run] by simp
  next
    case False
    show ?thesis
    proof (cases "\<not> clock_in i \<and> last_clock s \<and>
         0 < controller_bits_read s \<and> controller_bits_read s < 8")
      case True
      then show ?thesis
        using quiet_call_no_gap(7) [OF run False gap] by (simp add: or_and_absorb)
    next
      case f: False
      then show ?thesis
        using quiet_call_no_gap(8) [OF run False gap] by simp
    qed
  qed
qed
  from def pos neg show ?thesis by blast
qed

theorem resynchronization_counterexample:
  "\<not> clock_in (poll False True False 25000) \<and>
   micros_entry (poll False True False 25000) - last_read (PC1550_ctor 17 18 15 0) = 25000 \<and>
   map_option synchronized
     (processClockCycle (PC1550_ctor 17 18 15 0) (poll False True False 25000)) = Some False"
  by (simp add: processClockCycle_def sample_and_sync_def idle_gap_def falling_edge_def
        rising_edge_def frame_complete_def PC1550_ctor_def poll_def Let_def)

theorem resynchronization_witness:
  "idle_gap (poll False True False 26500) (PC1550_ctor 17 18 15 0) \<and>
   (\<exists>s'. processClockCycle (PC1550_ctor 17 18 15 0) (poll False True False 26500) = Some s' \<and>
         synchronized s' \<and> controller_bits_read s' = 0 \<and> controller_data s' = 0 \<and>
         pc16out_data s' = 0 \<and> keypad_data s' = 0 \<and> keypad_bits_read s' = 0) \<and>
   \<not> idle_gap (poll False True False 28000) (PC1550_ctor 17 18 15 0) \<and>
   map_option synchronized
     (processClockCycle (PC1550_ctor 17 18 15 0) (poll False True False 28000)) = Some False"
proof -
  have g: "idle_gap (poll False True False 26500) (PC1550_ctor 17 18 15 0)"
    by (simp add: idle_gap_def poll_def PC1550_ctor_def)
  have n: "\<not> idle_gap (poll False True False 28000) (PC1550_ctor 17 18 15 0)"
    by (simp add: idle_gap_def poll_def PC1550_ctor_def)
  have e: "map_option synchronized
     (processClockCycle (PC1550_ctor 17 18 15 0) (poll False True False 28000)) = Some False"
    by (simp add: processClockCycle_def sample_and_sync_def idle_gap_def falling_edge_def
        rising_edge_def frame_complete_def PC1550_ctor_def poll_def Let_def)
  from resynchronization [of "poll False True False 26500" "PC1550_ctor 17 18 15 0"] g n e
  show ?thesis by blast
qed

section \<open>Keypad bits\<close>




section \<open>Transmit window\<close>

lemma reachable_transmit_invariant:
  "reachable s \<Longrightarrow>
     (transmitting s \<longrightarrow> synchronized s) \<and>
     (datapin_mode s = OUTPUT \<longrightarrow> controller_bits_read s \<le> 7)"
proof (induction rule: reachable.induct)
  case (ctor dpin cpin ppin now)
  show ?case by (simp add: PC1550_ctor_def)
next
  case (key s c n)
  then show ?case by (simp add: sendKey_def Let_def)
next
  case (tick s i s')
  note n16 = reachable_not_16 [OF tick.hyps(1)]
  show ?case
  proof (cases "clock_in i \<and> \<not> last_clock s")
    case True
    then have edge: "clock_in i" "\<not> last_clock s" by simp_all
    note rc = rising_call [OF tick.hyps(2) edge]
    have a: "transmitting s' \<longrightarrow> synchronized s'"
      using rc(2) rc(8) tick.IH by auto
    have "controller_bits_read s + 1 \<le> 7" if "controller_bits_read s < 7"
      using that by (simp add: word_less_nat_alt word_le_nat_alt unat_word_ariths)
    then have b: "datapin_mode s' = OUTPUT \<longrightarrow> controller_bits_read s' \<le> 7"
      using rc(2) rc(3) rc(9) by (auto split: if_splits)
    from a b show ?thesis by simp
  next
    case False
    note k = quiet_call_keeps [OF tick.hyps(2) False]
    show ?thesis
    proof (cases "idle_gap i s")
      case True
      then show ?thesis using quiet_call_idle_gap [OF tick.hyps(2) True] by simp
    next
      case g: False
      then show ?thesis
        using quiet_call_no_gap(2,3) [OF tick.hyps(2) False g] k tick.IH n16 by auto
    qed
  qed
qed

text \<open>
  C4: a call on a rising edge reaches frame position \<open>p = controller_bits_read + 1\<close>.
  If it leaves \<open>transmitting\<close> set, then \<open>p\<close> is in 1..7 and the data pin is an output
  (driven low) exactly when bit \<open>7 - p\<close> of the pending key code is set; otherwise the
  pin is an input (floating). From position 8 on \<open>transmitting\<close> is cleared. Calls
  that are not on a rising edge change neither the pin direction nor \<open>transmitting\<close>.
  In every reachable object \<open>transmitting\<close> implies \<open>synchronized\<close>, and the pin is an
  output only at frame positions up to 7. A call on a rising edge has a defined result
  unless sixteen or more bits have been read, or it completes a frame with the beep bit
  set while the beep counter holds \<open>INT_MAX\<close>.
\<close>

theorem transmit_window:
  "(clock_in i \<and> \<not> last_clock s \<longrightarrow>
      (processClockCycle s i = None) =
        (15 < controller_bits_read s \<or>
         synchronized s \<and> controller_bits_read s = 15 \<and>
         (bit (controller_data s) 0 \<or> data_in i) \<and> iConsecutiveBeeps s = INT_MAX)) \<and>
   (processClockCycle s i = Some s' \<and> clock_in i \<and> \<not> last_clock s \<longrightarrow>
      (transmitting s' \<longrightarrow>
         1 \<le> unat (controller_bits_read s) + 1 \<and> unat (controller_bits_read s) + 1 \<le> 7 \<and>
         (datapin_mode s' = OUTPUT) =
           bit (key_to_send s) (7 - (unat (controller_bits_read s) + 1))) \<and>
      (\<not> transmitting s' \<longrightarrow> datapin_mode s' = INPUT) \<and>
      (8 \<le> unat (controller_bits_read s) + 1 \<longrightarrow> \<not> transmitting s')) \<and>
   (processClockCycle s i = Some s' \<and> \<not> (clock_in i \<and> \<not> last_clock s) \<longrightarrow>
      datapin_mode s' = datapin_mode s \<and> transmitting s' = transmitting s) \<and>
   (reachable s \<longrightarrow>
      (transmitting s \<longrightarrow> synchronized s) \<and>
      (datapin_mode s = OUTPUT \<longrightarrow> controller_bits_read s \<le> 7))"
proof -
  have d: "(processClockCycle s i = None) =
        (15 < controller_bits_read s \<or>
         synchronized s \<and> controller_bits_read s = 15 \<and>
         (bit (controller_data s) 0 \<or> data_in i) \<and> iConsecutiveBeeps s = INT_MAX)"
    if "clock_in i" "\<not> last_clock s"
    using that by (auto simp add: processClockCycle_None_iff)
  have a: "(transmitting s' \<longrightarrow>
         1 \<le> unat (controller_bits_read s) + 1 \<and> unat (controller_bits_read s) + 1 \<le> 7 \<and>
         (datapin_mode s' = OUTPUT) =
           bit (key_to_send s) (7 - (unat (controller_bits_read s) + 1))) \<and>
      (\<not> transmitting s' \<longrightarrow> datapin_mode s' = INPUT) \<and>
      (8 \<le> unat (controller_bits_read s) + 1 \<longrightarrow> \<not> transmitting s')"
    if run: "processClockCycle s i = Some s'" and edge: "clock_in i" "\<not> last_clock s"
  proof -
    note rc = rising_call [OF run edge]
    have u: "unat (controller_bits_read s + 1) = unat (controller_bits_read s) + 1"
      using rc(1) by (simp add: word_le_nat_alt unat_word_ariths)
    have lt: "controller_bits_read s < 7 \<longleftrightarrow> unat (controller_bits_read s) < 7"
      by (simp add: word_less_nat_alt)
    show ?thesis using rc(2) rc(3) u lt by auto
  qed
  have b: "datapin_mode s' = datapin_mode s \<and> transmitting s' = transmitting s"
    if "processClockCycle s i = Some s'" "\<not> (clock_in i \<and> \<not> last_clock s)"
    using quiet_call_keeps [OF that] by simp
  from a b d reachable_transmit_invariant show ?thesis by blast
qed

theorem transmit_window_witness:
  "\<exists>s'. processClockCycle
          (PC1550_ctor 17 18 15 0
             \<lparr>synchronized := True, controller_bits_read := 1, last_clock := False,
              transmitting := True, keyHoldCycles := 1, key_to_send := 0b00100010\<rparr>)
          (poll True False False 1000) = Some s' \<and>
        transmitting s' \<and> datapin_mode s' = OUTPUT \<and>
        reachable (PC1550_ctor 17 18 15 0) \<and> datapin_mode (PC1550_ctor 17 18 15 0) = INPUT"
proof -
  let ?s = "PC1550_ctor 17 18 15 0
             \<lparr>synchronized := True, controller_bits_read := 1, last_clock := False,
              transmitting := True, keyHoldCycles := 1, key_to_send := 0b00100010\<rparr>"
  let ?i = "poll True False False 1000"
  obtain s' where run: "processClockCycle ?s ?i = Some s'"
    by (simp add: processClockCycle_def sample_and_sync_def idle_gap_def falling_edge_def
        rising_edge_def frame_complete_def PC1550_ctor_def poll_def Let_def)
  have edge: "clock_in ?i \<and> \<not> last_clock ?s"
    by (simp add: poll_def)
  have t: "transmitting s'"
    using rising_call(2) [OF run] edge by simp
  have b: "bit (key_to_send ?s) (7 - (unat (controller_bits_read ?s) + 1))"
    by (simp add: bit_numeral_rec)
  have r: "reachable (PC1550_ctor 17 18 15 0)"
    by (rule reachable.ctor)
  from transmit_window [where s = ?s and i = ?i and s' = s'] run edge t b r show ?thesis
    by (auto simp add: PC1550_ctor_def)
qed

section \<open>Key release\<close>

text \<open>
  C6 (amended): when the available keypad snapshot is nonzero and a call completes a
  frame whose keypad data is zero, \<open>keyReleased\<close> returns the symbol of the snapshot,
  \<open>keyPressed\<close> reports no key, and the consecutive-press counter keeps its value; the
  counter is zero after the completion of a further frame with zero keypad data.
\<close>

theorem key_release:
  assumes run: "processClockCycle s i = Some s'"
    and cf: "completes_frame s i"
    and zero: "keypad_data s' = 0"
  shows "(available_keypad_data s \<noteq> 0 \<longrightarrow>
            keyReleased s' = getKeyChar (available_keypad_data s) \<and>
            keyPressed s' = CHR 0x00 \<and>
            consecutiveKeyPresses s' = consecutiveKeyPresses s) \<and>
         (available_keypad_data s = 0 \<longrightarrow>
            keyReleased s' = CHR 0x00 \<and> keyPressed s' = CHR 0x00 \<and>
            consecutiveKeyPresses s' = 0)"
  using completing_call(9,10) [OF run cf zero]
  by (auto simp add: keyReleased_def keyPressed_def consecutiveKeyPresses_def)

theorem key_release_counterexample:
  "map_option keyPressed
     (run (PC1550_ctor 17 18 15 0)
        (example_frame 26500 False False
           [(True, False, False), (False, False, False), (True, False, False),
            (True, False, False), (True, False, False), (False, False, False),
            (True, False, False), (True, False, False), (True, False, False),
            (True, False, False), (True, False, False), (True, False, False),
            (True, False, False), (True, False, False), (True, False, False)])) = Some CHR ''5'' \<and>
   map_option consecutiveKeyPresses
     (run (PC1550_ctor 17 18 15 0)
        (example_frame 26500 False False
           [(True, False, False), (False, False, False), (True, False, False),
            (True, False, False), (True, False, False), (False, False, False),
            (True, False, False), (True, False, False), (True, False, False),
            (True, False, False), (True, False, False), (True, False, False),
            (True, False, False), (True, False, False), (True, False, False)])) = Some 1 \<and>
   map_option bTransmissionEnd
     (run (PC1550_ctor 17 18 15 0)
        (example_frame 26500 False False
           [(True, False, False), (False, False, False), (True, False, False),
            (True, False, False), (True, False, False), (False, False, False),
            (True, False, False), (True, False, False), (True, False, False),
            (True, False, False), (True, False, False), (True, False, False),
            (True, False, False), (True, False, False), (True, False, False)] @
         example_frame 77500 False False (replicate 15 (True, False, False)))) = Some True \<and>
   map_option available_keypad_data
     (run (PC1550_ctor 17 18 15 0)
        (example_frame 26500 False False
           [(True, False, False), (False, False, False), (True, False, False),
            (True, False, False), (True, False, False), (False, False, False),
            (True, False, False), (True, False, False), (True, False, False),
            (True, False, False), (True, False, False), (True, False, False),
            (True, False, False), (True, False, False), (True, False, False)] @
         example_frame 77500 False False (replicate 15 (True, False, False)))) = Some 0 \<and>
   map_option keyReleased
     (run (PC1550_ctor 17 18 15 0)
        (example_frame 26500 False False
           [(True, False, False), (False, False, False), (True, False, False),
            (True, False, False), (True, False, False), (False, False, False),
            (True, False, False), (True, False, False), (True, False, False),
            (True, False, False), (True, False, False), (True, False, False),
            (True, False, False), (True, False, False), (True, False, False)] @
         example_frame 77500 False False (replicate 15 (True, False, False)))) = Some CHR ''5'' \<and>
   map_option consecutiveKeyPresses
     (run (PC1550_ctor 17 18 15 0)
        (example_frame 26500 False False
           [(True, False, False), (False, False, False), (True, False, False),
            (True, False, False), (True, False, False), (False, False, False),
            (True, False, False), (True, False, False), (True, False, False),
            (True, False, False), (True, False, False), (True, False, False),
            (True, False, False), (True, False, False), (True, False, False)] @
         example_frame 77500 False False (replicate 15 (True, False, False)))) = Some 1"
  by code_simp

theorem key_release_witness:
  "\<exists>s'. processClockCycle
          (PC1550_ctor 17 18 15 0
             \<lparr>synchronized := True, controller_bits_read := 15, last_clock := False,
              available_keypad_data := 0b00100010, iConsecutiveKeyPressCycles := 2\<rparr>)
          (poll True False False 1000) = Some s' \<and>
        keyReleased s' = CHR ''5'' \<and> keyPressed s' = CHR 0x00 \<and>
        consecutiveKeyPresses s' = 2"
proof -
  let ?s = "PC1550_ctor 17 18 15 0
             \<lparr>synchronized := True, controller_bits_read := 15, last_clock := False,
              available_keypad_data := 0b00100010, iConsecutiveKeyPressCycles := 2\<rparr>"
  let ?i = "poll True False False 1000"
  obtain s' where run: "processClockCycle ?s ?i = Some s'"
    by (simp add: processClockCycle_def sample_and_sync_def idle_gap_def falling_edge_def
        rising_edge_def frame_complete_def Beep_def PC1550_ctor_def poll_def
        store_bits_def first_bit_def sanity_check_def release_line_def transmit_bit_def
        classify_keypad_def Let_def)
  have edge: "clock_in ?i" "\<not> last_clock ?s"
    by (simp_all add: poll_def)
  have cf: "completes_frame ?s ?i"
    using rising_call(7) [OF run edge] by simp
  have zero: "keypad_data s' = 0"
    using rising_call(12) [OF run edge] by (simp add: PC1550_ctor_def)
  from key_release [OF run cf zero] run show ?thesis
    by (auto simp add: PC1550_ctor_def getKeyChar_def consecutiveKeyPresses_def)
qed

section \<open>Readiness for a key\<close>

lemma before_first_quiet_frame_cycles:
  "before_first_quiet_frame s \<Longrightarrow> cyclesWithoutKey s = 0"
proof (induction rule: before_first_quiet_frame.induct)
  case (ctor dpin cpin ppin now)
  show ?case by (simp add: PC1550_ctor_def)
next
  case (tick s i s')
  show ?case
  proof (cases "clock_in i \<and> \<not> last_clock s")
    case True
    then show ?thesis
      using rising_call(6) [OF tick.hyps(3)] tick.hyps(2) tick.IH
      by (auto simp add: frame_start_without_key_def)
  next
    case False
    then show ?thesis
      using quiet_call_keeps(4) [OF tick.hyps(3) False] tick.IH by simp
  qed
next
  case (key s c n)
  then show ?case by (simp add: sendKey_keeps)
qed

text \<open>
  C10: the constructed object is not ready for a key and rejects every \<open>sendKey\<close>,
  because \<open>cyclesWithoutKey\<close> starts at zero. The same holds for every object reached
  from the constructor by calls none of which took the first bit of a synchronized
  frame with no key pending; \<open>cyclesWithoutKey\<close> changes only in a call on a rising
  edge taken synchronized at frame position 0.
\<close>

theorem no_key_before_first_quiet_frame:
  "\<not> readyForKeyPress (PC1550_ctor dpin cpin ppin now) \<and>
   sendKey c n (PC1550_ctor dpin cpin ppin now) = (False, PC1550_ctor dpin cpin ppin now) \<and>
   cyclesWithoutKey (PC1550_ctor dpin cpin ppin now) = 0 \<and>
   (before_first_quiet_frame s \<longrightarrow> \<not> readyForKeyPress s \<and> sendKey c n s = (False, s)) \<and>
   (processClockCycle s i = Some s' \<and> cyclesWithoutKey s' \<noteq> cyclesWithoutKey s \<longrightarrow>
      clock_in i \<and> \<not> last_clock s \<and> synchronized s \<and> controller_bits_read s = 0)"
proof -
  have a: "\<not> readyForKeyPress s \<and> sendKey c n s = (False, s)" if "cyclesWithoutKey s = 0" for s
    using that by (simp add: readyForKeyPress_def sendKey_def)
  have c0: "cyclesWithoutKey (PC1550_ctor dpin cpin ppin now) = 0"
    by (simp add: PC1550_ctor_def)
  have b: "clock_in i \<and> \<not> last_clock s \<and> synchronized s \<and> controller_bits_read s = 0"
    if run: "processClockCycle s i = Some s'" and ch: "cyclesWithoutKey s' \<noteq> cyclesWithoutKey s"
  proof (cases "clock_in i \<and> \<not> last_clock s")
    case True
    then show ?thesis using rising_call(6) [OF run] ch by (auto split: if_splits)
  next
    case False
    then show ?thesis using quiet_call_keeps(4) [OF run False] ch by simp
  qed
  from a [OF c0] c0 a [OF before_first_quiet_frame_cycles] b show ?thesis by blast
qed

theorem no_key_before_first_quiet_frame_witness:
  "before_first_quiet_frame (PC1550_ctor 17 18 15 0) \<and>
   \<not> readyForKeyPress (PC1550_ctor 17 18 15 0) \<and>
   sendKey CHR ''5'' 1 (PC1550_ctor 17 18 15 0) = (False, PC1550_ctor 17 18 15 0) \<and>
   map_option readyForKeyPress
     (run (PC1550_ctor 17 18 15 0)
        [poll False True False 26500, poll True False False 27000]) = Some True"
proof -
  have r: "before_first_quiet_frame (PC1550_ctor 17 18 15 0)"
    by (rule before_first_quiet_frame.ctor)
  have e: "map_option readyForKeyPress
     (run (PC1550_ctor 17 18 15 0)
        [poll False True False 26500, poll True False False 27000]) = Some True"
    by code_simp
  from no_key_before_first_quiet_frame
    [of 17 18 15 0 "CHR ''5''" 1 "PC1550_ctor 17 18 15 0"] r e
  show ?thesis by blast
qed

section \<open>Key hold cycles\<close>

lemma quiet_call_pin_events:
  assumes run: "processClockCycle s i = Some s'"
    and edge: "\<not> (clock_in i \<and> \<not> last_clock s)"
  shows "pin_events s' = pin_events s"
proof (cases "idle_gap i s")
  case True
  then show ?thesis
    using quiet_call_idle_gap(9) [OF run True] by (simp add: pin_events_def)
next
  case False
  show ?thesis
  proof (cases "\<not> clock_in i \<and> last_clock s \<and>
         0 < controller_bits_read s \<and> controller_bits_read s < 8")
    case True
    then show ?thesis
      using quiet_call_no_gap(7) [OF run edge False] by (simp add: pin_events_def)
  next
    case f: False
    then show ?thesis
      using quiet_call_no_gap(8) [OF run edge False] by (simp add: pin_events_def)
  qed
qed

lemma rising_call_pin_events:
  assumes run: "processClockCycle s i = Some s'"
    and edge: "clock_in i" "\<not> last_clock s"
  shows "pin_events s' =
     pin_events s @ PinMode (datapin s) INPUT #
       (if datapin_mode s' = OUTPUT then [PinMode (datapin s) OUTPUT] else [])"
  using rising_call(17) [OF run edge] by (simp add: pin_events_def)

lemma frame_body_key:
  assumes "frame_body s is = Some s'"
    and "synchronized s"
    and "unat (controller_bits_read s) = p"
    and "p \<le> 15"
    and "key_to_send s = (if p < 7 then k else if h \<le> 1 then 0 else k)"
    and "keyHoldCycles s = (if p < 7 then h else if h = 0 then 0 else h - 1)"
    and "k \<noteq> 0 \<longrightarrow> 1 \<le> p \<longrightarrow> p < 7 \<longrightarrow> transmitting s"
    and "k = 0 \<longrightarrow> h = 0"
    and "datapin s = d"
  shows "key_to_send s' = (if h \<le> 1 then 0 else k) \<and>
         keyHoldCycles s' = (if h = 0 then 0 else h - 1) \<and>
         datapin s' = d \<and>
         pin_events s' = pin_events s @ concat (map (drive_slot d k) [Suc p..<17])"
  using assms
proof (induction "is" arbitrary: s p)
  case Nil
  then show ?case by simp
next
  case (Cons i "is")
  from Cons.prems(1) have gap: "\<not> idle_gap i s"
    by (auto split: if_splits)
  from Cons.prems(1) gap obtain s1 where run: "processClockCycle s i = Some s1"
    by (auto split: option.splits)
  from Cons.prems(1) gap run have rest:
    "(if completes_frame s i then (if is = [] then Some s1 else None) else frame_body s1 is) = Some s'"
    by simp
  note sy = Cons.prems(2) and pos = Cons.prems(3) and p15 = Cons.prems(4)
    and key = Cons.prems(5) and hold = Cons.prems(6) and tr = Cons.prems(7)
    and ok = Cons.prems(8) and dp = Cons.prems(9)
  have b0: "controller_bits_read s = 0 \<longleftrightarrow> p = 0"
    using pos by (auto simp add: unat_eq_zero)
  have b6: "controller_bits_read s = 6 \<longleftrightarrow> p = 6"
    using pos by (auto simp add: word_unat_eq_iff)
  have b15: "controller_bits_read s = 15 \<longleftrightarrow> p = 15"
    using pos by (auto simp add: word_unat_eq_iff)
  have b16: "controller_bits_read s \<noteq> 16"
    using pos p15 by (auto simp add: word_unat_eq_iff)
  have b7: "controller_bits_read s < 7 \<longleftrightarrow> p < 7"
    using pos by (auto simp add: word_less_nat_alt)
  show ?case
  proof (cases "clock_in i \<and> \<not> last_clock s")
    case True
    then have edge: "clock_in i" "\<not> last_clock s" by simp_all
    note rc = rising_call [OF run edge]
    have u: "unat (controller_bits_read s + 1) = Suc p"
      using pos p15 by (simp add: unat_word_ariths)
    have tr1: "k \<noteq> 0 \<Longrightarrow> transmitting s1 = (p < 7)"
      using rc(2) sy b0 b7 key tr by (cases "p = 0") auto
    have mode: "(datapin_mode s1 = OUTPUT) = (Suc p \<le> 7 \<and> bit k (7 - Suc p))"
    proof (cases "k = 0")
      case True
      then have "key_to_send s = 0" using key by simp
      then show ?thesis using rc(3) True by simp
    next
      case False
      show ?thesis
        using rc(3) tr1 [OF False] u key by (auto split: if_splits)
    qed
    have key1: "key_to_send s1 = (if Suc p < 7 then k else if h \<le> 1 then 0 else k)"
    proof (cases "k = 0")
      case True
      then show ?thesis using rc(5) key by (auto split: if_splits)
    next
      case False
      show ?thesis
        using rc(5) tr1 [OF False] b6 key hold by (auto split: if_splits)
    qed
    have hold1: "keyHoldCycles s1 = (if Suc p < 7 then h else if h = 0 then 0 else h - 1)"
    proof (cases "k = 0")
      case True
      then have "h = 0" using ok by simp
      then show ?thesis using rc(4) hold by (auto split: if_splits)
    next
      case False
      show ?thesis
        using rc(4) tr1 [OF False] b6 hold
        by (auto simp add: word_greater_zero_iff split: if_splits)
    qed
    have tr1': "k \<noteq> 0 \<longrightarrow> 1 \<le> Suc p \<longrightarrow> Suc p < 7 \<longrightarrow> transmitting s1"
      using tr1 by auto
    have pe: "pin_events s1 = pin_events s @ drive_slot d k (Suc p)"
      using rising_call_pin_events [OF run edge] mode dp by (simp add: drive_slot_def)
    have cf: "completes_frame s i = (p = 15)"
      using rc(7) sy b15 by simp
    show ?thesis
    proof (cases "p = 15")
      case True
      with rest cf have fin: "s' = s1"
        by (auto split: if_splits)
      have "[Suc p..<17] = [Suc p]"
        using True by (simp add: upt_rec)
      then show ?thesis
        using fin key1 hold1 pe rc(16) dp True by simp
    next
      case False
      with rest cf have body: "frame_body s1 is = Some s'" by simp
      have sy1: "synchronized s1" using rc(8) sy b15 False by simp
      have pos1: "unat (controller_bits_read s1) = Suc p"
        using rc(9) sy b15 False u by simp
      have p1: "Suc p \<le> 15" using p15 False by simp
      have d1: "datapin s1 = d" using rc(16) dp by simp
      have up: "[Suc p..<17] = Suc p # [Suc (Suc p)..<17]"
        using p15 by (simp add: upt_rec)
      from Cons.IH [OF body sy1 pos1 p1 key1 hold1 tr1' ok d1]
      show ?thesis using pe up by simp
    qed
  next
    case False
    note qk = quiet_call_keeps [OF run False]
    note qn = quiet_call_no_gap [OF run False gap]
    have cf: "\<not> completes_frame s i" using qn(1) b16 by simp
    with rest have body: "frame_body s1 is = Some s'" by simp
    have sy1: "synchronized s1" using qn(2) sy b16 by simp
    have pos1: "unat (controller_bits_read s1) = p" using qn(3) b16 pos by simp
    have key1: "key_to_send s1 = (if p < 7 then k else if h \<le> 1 then 0 else k)"
      using qk(1) key by simp
    have hold1: "keyHoldCycles s1 = (if p < 7 then h else if h = 0 then 0 else h - 1)"
      using qk(2) hold by simp
    have tr1: "k \<noteq> 0 \<longrightarrow> 1 \<le> p \<longrightarrow> p < 7 \<longrightarrow> transmitting s1"
      using qk(3) tr by simp
    have d1: "datapin s1 = d" using qk(6) dp by simp
    from Cons.IH [OF body sy1 pos1 p15 key1 hold1 tr1 ok d1]
    show ?thesis using quiet_call_pin_events [OF run False] by simp
  qed
qed

lemma frame_key:
  assumes "frame s is = Some s'"
    and "key_to_send s = 0 \<longrightarrow> keyHoldCycles s = 0"
  shows "key_to_send s' = (if keyHoldCycles s \<le> 1 then 0 else key_to_send s) \<and>
         keyHoldCycles s' = (if keyHoldCycles s = 0 then 0 else keyHoldCycles s - 1) \<and>
         datapin s' = datapin s \<and>
         pin_events s' = pin_events s @ drive_pattern (datapin s) (key_to_send s)"
  using assms
proof (induction "is" arbitrary: s)
  case Nil
  then show ?case by simp
next
  case (Cons i "is")
  show ?case
  proof (cases "clock_in i \<and> \<not> last_clock s")
    case True
    with Cons.prems(1) have sy: "synchronized s" and b: "controller_bits_read s = 0"
      and body: "frame_body s (i # is) = Some s'"
      by (auto split: if_splits)
    have "key_to_send s' = (if keyHoldCycles s \<le> 1 then 0 else key_to_send s) \<and>
         keyHoldCycles s' = (if keyHoldCycles s = 0 then 0 else keyHoldCycles s - 1) \<and>
         datapin s' = datapin s \<and>
         pin_events s' =
           pin_events s @ concat (map (drive_slot (datapin s) (key_to_send s)) [Suc 0..<17])"
      using Cons.prems(2) b
      by (intro frame_body_key [OF body sy, where p = 0]) simp_all
    then show ?thesis by (simp add: drive_pattern_def)
  next
    case False
    with Cons.prems(1) obtain s1 where run: "processClockCycle s i = Some s1"
      and rest: "frame s1 is = Some s'"
      by (auto split: option.splits)
    note qk = quiet_call_keeps [OF run False]
    have ok1: "key_to_send s1 = 0 \<longrightarrow> keyHoldCycles s1 = 0"
      using qk Cons.prems(2) by simp
    from Cons.IH [OF rest ok1] show ?thesis
      using qk quiet_call_pin_events [OF run False] by simp
  qed
qed

lemma frames_idle:
  assumes "frames s fs = Some s'" "key_to_send s = 0" "keyHoldCycles s = 0"
  shows "key_to_send s' = 0 \<and> keyHoldCycles s' = 0 \<and> datapin s' = datapin s \<and>
         pin_events s' =
           pin_events s @ concat (replicate (length fs) (drive_pattern (datapin s) 0))"
  using assms
proof (induction fs arbitrary: s)
  case Nil
  then show ?case by simp
next
  case (Cons f fs)
  from Cons.prems(1) obtain s1 where f: "frame s f = Some s1" and rest: "frames s1 fs = Some s'"
    by (auto split: option.splits)
  have one: "key_to_send s1 = 0 \<and> keyHoldCycles s1 = 0 \<and> datapin s1 = datapin s \<and>
      pin_events s1 = pin_events s @ drive_pattern (datapin s) 0"
    using frame_key [OF f] Cons.prems(2,3) by simp
  from Cons.IH [OF rest] one show ?case by simp
qed

lemma frames_hold:
  assumes "frames s fs = Some s'" "key_to_send s = k" "k \<noteq> 0" "keyHoldCycles s = h" "0 < h"
  shows "key_to_send s' = (if length fs < unat h then k else 0) \<and>
         keyHoldCycles s' = (if length fs < unat h then h - of_nat (length fs) else 0) \<and>
         datapin s' = datapin s \<and>
         pin_events s' =
           pin_events s @
           concat (replicate (min (length fs) (unat h)) (drive_pattern (datapin s) k)) @
           concat (replicate (length fs - unat h) (drive_pattern (datapin s) 0))"
  using assms
proof (induction fs arbitrary: s h)
  case Nil
  then show ?case by (simp add: unat_gt_0 word_greater_zero_iff)
next
  case (Cons f fs)
  from Cons.prems(1) obtain s1 where f: "frame s f = Some s1" and rest: "frames s1 fs = Some s'"
    by (auto split: option.splits)
  have hpos: "0 < unat h"
    using Cons.prems(5) by (simp add: word_less_nat_alt)
  have one: "key_to_send s1 = (if h \<le> 1 then 0 else k) \<and> keyHoldCycles s1 = h - 1 \<and>
      datapin s1 = datapin s \<and> pin_events s1 = pin_events s @ drive_pattern (datapin s) k"
    using frame_key [OF f] Cons.prems(2,3,4,5) by (auto simp add: word_greater_zero_iff)
  show ?case
  proof (cases "h = 1")
    case True
    then have k1: "key_to_send s1 = 0" and h1: "keyHoldCycles s1 = 0"
      using one by simp_all
    from frames_idle [OF rest k1 h1] one True show ?thesis by simp
  next
    case False
    then have h2: "2 \<le> unat h"
      using hpos by (auto simp add: word_unat_eq_iff)
    have hle: "\<not> h \<le> 1"
      using h2 by (simp add: word_le_nat_alt)
    have u1: "unat (h - 1) = unat h - 1"
      using hpos by (simp add: unat_sub word_le_nat_alt)
    have k1: "key_to_send s1 = k" and h1: "keyHoldCycles s1 = h - 1"
      using one hle by simp_all
    have hp: "0 < h - 1"
      using u1 h2 by (simp add: word_less_nat_alt)
    have m: "min (Suc (length fs)) (unat h) = Suc (min (length fs) (unat h - 1))"
      using h2 by (cases "unat h") simp_all
    from Cons.IH [OF rest k1 Cons.prems(3) h1 hp] one u1 m show ?thesis
      by (auto simp add: algebra_simps)
  qed
qed

lemma before_frame_start:
  assumes "run s pre = Some s1" "no_frame_start s pre" "\<not> transmitting s"
  shows "\<not> transmitting s1 \<and> key_to_send s1 = key_to_send s \<and>
         keyHoldCycles s1 = keyHoldCycles s \<and> datapin s1 = datapin s \<and>
         drive_events s1 = drive_events s"
  using assms
proof (induction pre arbitrary: s)
  case Nil
  then show ?case by simp
next
  case (Cons i pre)
  from Cons.prems(1) obtain s2 where run: "processClockCycle s i = Some s2"
    and rest: "run s2 pre = Some s1"
    by (auto split: option.splits)
  from Cons.prems(2) run have
    ns: "\<not> (clock_in i \<and> \<not> last_clock s \<and> synchronized s \<and> controller_bits_read s = 0)"
    and nf: "no_frame_start s2 pre"
    by simp_all
  have step: "\<not> transmitting s2 \<and> key_to_send s2 = key_to_send s \<and>
         keyHoldCycles s2 = keyHoldCycles s \<and> datapin s2 = datapin s \<and>
         drive_events s2 = drive_events s"
  proof (cases "clock_in i \<and> \<not> last_clock s")
    case True
    then have edge: "clock_in i" "\<not> last_clock s" by simp_all
    note rc = rising_call [OF run edge]
    have t2: "\<not> transmitting s2"
      using rc(2) Cons.prems(3) ns edge by auto
    then have m: "datapin_mode s2 = INPUT"
      using rc(3) by simp
    show ?thesis
      using t2 rc(4) rc(5) rc(16) rc(17) m by (simp add: drive_events_def)
  next
    case False
    note qk = quiet_call_keeps [OF run False]
    have "drive_events s2 = drive_events s"
    proof (cases "idle_gap i s")
      case True
      then show ?thesis
        using quiet_call_idle_gap(9) [OF run True] by (simp add: drive_events_def)
    next
      case g: False
      show ?thesis
      proof (cases "\<not> clock_in i \<and> last_clock s \<and>
           0 < controller_bits_read s \<and> controller_bits_read s < 8")
        case True
        then show ?thesis
          using quiet_call_no_gap(7) [OF run False g] by (simp add: drive_events_def)
      next
        case f: False
        then show ?thesis
          using quiet_call_no_gap(8) [OF run False g] by (simp add: drive_events_def)
      qed
    qed
    then show ?thesis using qk Cons.prems(3) by simp
  qed
  from Cons.IH [OF rest nf] step show ?case by simp
qed

text \<open>
  Requests made outside transmit mode: let \<open>sendKey c n\<close> be accepted with \<open>n > 0\<close> by
  an object that is not in transmit mode, let polls follow none of which starts a frame (the rest of the current frame,
  for a request made within one), and then any number of synchronized frames; \<open>s'\<close> is
  the object after \<open>processClockCycle\<close> has run on all these polls. Before the first
  frame the request is untouched and the line is never driven. After the frames the code
  of \<open>c\<close> is still pending (with the hold-cycle counter reduced by the number of
  frames) as long as fewer than \<open>n\<close> frames have completed, and is cleared, with the
  counter at zero, from the \<open>n\<close>-th frame on. The \<open>pinMode\<close> calls issued during the
  frames are those of the bit pattern of the key in each of the first \<open>n\<close> frames, and
  those of a frame that never drives the line in every later frame. In any single call
  the counter is decremented exactly on the rising edge of the 7th bit in transmit
  mode, and the key code is cleared there exactly when the counter is then zero.
\<close>

theorem key_hold_cycles:
  assumes accepted: "sendKey c n s = (True, s0)"
    and hold: "0 < n"
    and idle: "\<not> transmitting s"
    and pre: "no_frame_start s0 pre" "run s0 pre = Some s1"
    and run: "frames s1 fs = Some s'"
  shows "key_to_send s0 = getKeyValue c \<and> keyHoldCycles s0 = n \<and>
         key_to_send s1 = getKeyValue c \<and> keyHoldCycles s1 = n \<and>
         drive_events s1 = drive_events s0 \<and>
         run s0 (pre @ concat fs) = Some s' \<and>
         key_to_send s' = (if length fs < unat n then getKeyValue c else 0) \<and>
         keyHoldCycles s' = (if length fs < unat n then n - of_nat (length fs) else 0) \<and>
         pin_events s' =
           pin_events s1 @
           concat (replicate (min (length fs) (unat n)) (drive_pattern (datapin s) (getKeyValue c))) @
           concat (replicate (length fs - unat n) (drive_pattern (datapin s) 0)) \<and>
         (\<forall>t i t'. processClockCycle t i = Some t' \<longrightarrow>
            (if clock_in i \<and> \<not> last_clock t \<and> controller_bits_read t = 6 \<and> transmitting t'
             then keyHoldCycles t' = (if 0 < keyHoldCycles t then keyHoldCycles t - 1 else 0) \<and>
                  key_to_send t' = (if keyHoldCycles t' = 0 then 0 else key_to_send t)
             else keyHoldCycles t' = keyHoldCycles t \<and> key_to_send t' = key_to_send t))"
proof -
  from accepted have s0: "s0 = s\<lparr>key_to_send := getKeyValue c, keyHoldCycles := n\<rparr>"
    and code: "getKeyValue c \<noteq> 0"
    by (auto simp add: sendKey_def Let_def split: if_splits)
  have k0: "key_to_send s0 = getKeyValue c" and h0: "keyHoldCycles s0 = n"
    and d0: "datapin s0 = datapin s" and t0: "\<not> transmitting s0"
    using idle by (simp_all add: s0)
  note b = before_frame_start [OF pre(2) pre(1) t0]
  have k1: "key_to_send s1 = getKeyValue c" and h1: "keyHoldCycles s1 = n"
    and d1: "datapin s1 = datapin s"
    using b k0 h0 d0 by simp_all
  note fh = frames_hold [OF run k1 code h1 hold]
  have whole: "run s0 (pre @ concat fs) = Some s'"
    using pre(2) frames_run [OF run] by (simp add: run_append)
  have step: "if clock_in i \<and> \<not> last_clock t \<and> controller_bits_read t = 6 \<and> transmitting t'
             then keyHoldCycles t' = (if 0 < keyHoldCycles t then keyHoldCycles t - 1 else 0) \<and>
                  key_to_send t' = (if keyHoldCycles t' = 0 then 0 else key_to_send t)
             else keyHoldCycles t' = keyHoldCycles t \<and> key_to_send t' = key_to_send t"
    if r: "processClockCycle t i = Some t'" for t i t'
  proof (cases "clock_in i \<and> \<not> last_clock t")
    case True
    then have edge: "clock_in i" "\<not> last_clock t" by simp_all
    note rc = rising_call(4,5) [OF r edge]
    have "keyHoldCycles t \<le> 1 \<longleftrightarrow> keyHoldCycles t = 0 \<or> keyHoldCycles t - 1 = 0"
      by (auto simp add: u8_le_1)
    then show ?thesis
      using rc True by (auto simp add: word_greater_zero_iff)
  next
    case False
    then show ?thesis using quiet_call_keeps(1,2) [OF r False] by auto
  qed
  from k0 h0 k1 h1 b fh d1 step whole show ?thesis by simp
qed

theorem key_hold_cycles_witness:
  "\<exists>s0 s1 s'.
     sendKey CHR ''5'' 1
       (PC1550_ctor 17 18 15 0
          \<lparr>synchronized := True, controller_bits_read := 3, keypad_bits_read := 2,
           last_read := 30200, cyclesWithoutKey := 1\<rparr>) = (True, s0) \<and>
     no_frame_start s0 (example_cycles 31000 (replicate 13 (True, False, False))) \<and>
     run s0 (example_cycles 31000 (replicate 13 (True, False, False))) = Some s1 \<and>
     key_to_send s1 = 0b00100010 \<and> keyHoldCycles s1 = 1 \<and>
     drive_events s1 = drive_events s0 \<and>
     frames s1 [example_frame 77500 False False (replicate 15 (True, False, False)),
                example_frame 128500 False False (replicate 15 (True, False, False))] = Some s' \<and>
     key_to_send s' = 0 \<and> keyHoldCycles s' = 0 \<and>
     pin_events s' = pin_events s1 @ drive_pattern 17 0b00100010 @ drive_pattern 17 0"
proof -
  define q where
    "q = PC1550_ctor 17 18 15 0
          \<lparr>synchronized := True, controller_bits_read := 3, keypad_bits_read := 2,
           last_read := 30200, cyclesWithoutKey := 1\<rparr>"
  define acc where "acc = snd (sendKey CHR ''5'' 1 q)"
  define pre where "pre = example_cycles 31000 (replicate 13 (True, False, False))"
  define mid where "mid = the (run acc pre)"
  define two where
    "two = [example_frame 77500 False False (replicate 15 (True, False, False)),
            example_frame 128500 False False (replicate 15 (True, False, False))]"
  have "fst (sendKey CHR ''5'' 1 q)"
    unfolding q_def by code_simp
  then have a: "sendKey CHR ''5'' 1 q = (True, acc)"
    by (simp add: acc_def prod_eq_iff)
  have d: "datapin q = 17" and i: "\<not> transmitting q"
    unfolding q_def by code_simp+
  have nf: "no_frame_start acc pre"
    unfolding acc_def q_def pre_def by code_simp
  have "map_option keyHoldCycles (run acc pre) = Some 1"
    unfolding acc_def q_def pre_def by code_simp
  then have r1: "run acc pre = Some mid"
    by (auto simp add: mid_def)
  have "map_option keyHoldCycles (frames mid two) = Some 0"
    unfolding mid_def acc_def q_def pre_def two_def by code_simp
  then obtain s' where r2: "frames mid two = Some s'"
    by auto
  have n: "(0 :: u8) < 1" by simp
  have c5: "getKeyValue CHR ''5'' = 0b00100010"
    by (simp add: getKeyValue_def)
  have len: "length two = 2"
    by (simp add: two_def)
  have e: "key_to_send mid = 0b00100010 \<and> keyHoldCycles mid = 1 \<and>
     drive_events mid = drive_events acc \<and>
     key_to_send s' = 0 \<and> keyHoldCycles s' = 0 \<and>
     pin_events s' = pin_events mid @ drive_pattern 17 0b00100010 @ drive_pattern 17 0"
    using key_hold_cycles [OF a n i nf r1 r2] d by (simp add: c5 len)
  from a nf r1 r2 e have
    "\<exists>s0 s1 s'.
       sendKey CHR ''5'' 1 q = (True, s0) \<and>
       no_frame_start s0 pre \<and> run s0 pre = Some s1 \<and>
       key_to_send s1 = 0b00100010 \<and> keyHoldCycles s1 = 1 \<and>
       drive_events s1 = drive_events s0 \<and>
       frames s1 two = Some s' \<and> key_to_send s' = 0 \<and> keyHoldCycles s' = 0 \<and>
       pin_events s' = pin_events s1 @ drive_pattern 17 0b00100010 @ drive_pattern 17 0"
    by blast
  then show ?thesis
    unfolding q_def pre_def two_def .
qed

section \<open>The quiet-cycle counter over a history\<close>

lemma reachable_run: "reachable s \<Longrightarrow> run s is = Some s' \<Longrightarrow> reachable s'"
proof (induction "is" arbitrary: s)
  case Nil
  then show ?case by simp
next
  case (Cons i "is")
  from Cons.prems(2) obtain s1 where a: "processClockCycle s i = Some s1" and b: "run s1 is = Some s'"
    by (auto split: option.splits)
  from Cons.IH [OF reachable.tick [OF Cons.prems(1) a] b] show ?case .
qed

text \<open>
  While no key is pending, \<open>cyclesWithoutKey\<close> counts the frame starts seen, modulo 256.
\<close>

lemma cyclesWithoutKey_step:
  assumes run: "processClockCycle s i = Some s'" and key: "key_to_send s = 0"
  shows "key_to_send s' = 0 \<and> keyHoldCycles s' \<le> keyHoldCycles s \<and>
         cyclesWithoutKey s' =
           cyclesWithoutKey s + (if frame_start_without_key s i then 1 else 0)"
proof (cases "clock_in i \<and> \<not> last_clock s")
  case True
  then have edge: "clock_in i" "\<not> last_clock s" by simp_all
  note rc = rising_call [OF run edge]
  have "keyHoldCycles s - 1 \<le> keyHoldCycles s" if "0 < keyHoldCycles s"
    using that by (simp add: word_less_nat_alt word_le_nat_alt unat_sub word_le_nat_alt)
  then show ?thesis
    using rc(4) rc(5) rc(6) key edge by (auto simp add: frame_start_without_key_def)
next
  case False
  then show ?thesis
    using quiet_call_keeps [OF run False] key by (auto simp add: frame_start_without_key_def)
qed

lemma cyclesWithoutKey_history:
  assumes "run s is = Some s'" "key_to_send s = 0"
  shows "key_to_send s' = 0 \<and> keyHoldCycles s' \<le> keyHoldCycles s \<and>
         cyclesWithoutKey s' = cyclesWithoutKey s + of_nat (quiet_starts_seen s is)"
  using assms
proof (induction "is" arbitrary: s)
  case Nil
  then show ?case by simp
next
  case (Cons i "is")
  from Cons.prems(1) obtain s1 where a: "processClockCycle s i = Some s1" and b: "run s1 is = Some s'"
    by (auto split: option.splits)
  note st = cyclesWithoutKey_step [OF a Cons.prems(2)]
  from st have k1: "key_to_send s1 = 0" by simp
  from Cons.IH [OF b k1] st a show ?case by auto
qed

lemma quiet_frame_starts_run:
  assumes "key_to_send s = 0" "last_read s = t"
  shows "\<exists>s'. run s (quiet_frame_starts n t) = Some s' \<and>
              quiet_starts_seen s (quiet_frame_starts n t) = n"
  using assms
proof (induction n arbitrary: s t)
  case 0
  then show ?case by simp
next
  case (Suc n)
  let ?a = "poll False True False (t + 26000)"
  let ?b = "poll True False False (t + 26500)"
  have gap: "idle_gap ?a s"
    using Suc.prems(2) by (simp add: idle_gap_def poll_def)
  then obtain s1 where r1: "processClockCycle s ?a = Some s1"
    using idle_gap_call_defined by blast
  have na: "\<not> (clock_in ?a \<and> \<not> last_clock s)" by (simp add: poll_def)
  note q1 = quiet_call_idle_gap [OF r1 gap] and k1 = quiet_call_keeps [OF r1 na]
  have edge: "clock_in ?b" "\<not> last_clock s1"
    using k1(8) by (simp_all add: poll_def)
  have "processClockCycle s1 ?b \<noteq> None"
    using q1(2) edge by (simp add: processClockCycle_None_iff)
  then obtain s2 where r2: "processClockCycle s1 ?b = Some s2" by auto
  note rc = rising_call [OF r2 edge]
  have key2: "key_to_send s2 = 0"
    using rc(5) k1(1) Suc.prems(1) by simp
  have lr2: "last_read s2 = t + 26500"
    using rc(14) by (simp add: poll_def)
  have f1: "\<not> frame_start_without_key s ?a"
    by (simp add: frame_start_without_key_def poll_def)
  have f2: "frame_start_without_key s1 ?b"
    using edge q1(1,2) k1(1) Suc.prems(1) by (simp add: frame_start_without_key_def)
  from Suc.IH [OF key2 lr2] obtain s' where
    r: "run s2 (quiet_frame_starts n (t + 26500)) = Some s'" and
    c: "quiet_starts_seen s2 (quiet_frame_starts n (t + 26500)) = n"
    by blast
  show ?case using r1 r2 r c f1 f2 by simp
qed

text \<open>
  C7: \<open>sendKey\<close> is to be rejected, for a known symbol and with no key held, only as
  long as no frame start without a key has been observed. The counter of these frame
  starts is a \<open>uint8_t\<close> that line 515 increments, so it is zero again after 256 of
  them: the constructed object that has then seen 256 frame starts without a key, with
  no key pending and none held, still rejects \<open>sendKey('5', 1)\<close>, while after 255 frame
  starts the same request is accepted.
\<close>

theorem sendKey_after_256_quiet_frame_starts:
  "quiet_starts_seen (PC1550_ctor 17 18 15 0) (quiet_frame_starts 256 0) = 256 \<and>
   map_option key_to_send (run (PC1550_ctor 17 18 15 0) (quiet_frame_starts 256 0)) = Some 0 \<and>
   map_option keyHoldCycles (run (PC1550_ctor 17 18 15 0) (quiet_frame_starts 256 0)) = Some 0 \<and>
   map_option cyclesWithoutKey (run (PC1550_ctor 17 18 15 0) (quiet_frame_starts 256 0)) = Some 0 \<and>
   map_option (fst \<circ> sendKey CHR ''5'' 1)
     (run (PC1550_ctor 17 18 15 0) (quiet_frame_starts 256 0)) = Some False \<and>
   quiet_starts_seen (PC1550_ctor 17 18 15 0) (quiet_frame_starts 255 0) = 255 \<and>
   map_option (fst \<circ> sendKey CHR ''5'' 1)
     (run (PC1550_ctor 17 18 15 0) (quiet_frame_starts 255 0)) = Some True"
proof -
  let ?c = "PC1550_ctor 17 18 15 0"
  have k: "key_to_send ?c = 0" and l: "last_read ?c = 0" and h: "keyHoldCycles ?c = 0"
    and w: "cyclesWithoutKey ?c = 0"
    by (simp_all add: PC1550_ctor_def)
  have all: "\<exists>s'. run ?c (quiet_frame_starts n 0) = Some s' \<and>
      quiet_starts_seen ?c (quiet_frame_starts n 0) = n \<and>
      key_to_send s' = 0 \<and> keyHoldCycles s' = 0 \<and> cyclesWithoutKey s' = of_nat n" for n
  proof -
    from quiet_frame_starts_run [OF k l, of n] obtain s' where
      r: "run ?c (quiet_frame_starts n 0) = Some s'" and
      c: "quiet_starts_seen ?c (quiet_frame_starts n 0) = n"
      by blast
    from cyclesWithoutKey_history [OF r k] c h w show ?thesis
      using r by auto
  qed
  from all [of 256] obtain s where
    r: "run ?c (quiet_frame_starts 256 0) = Some s" and
    c: "quiet_starts_seen ?c (quiet_frame_starts 256 0) = 256" and
    f: "key_to_send s = 0" "keyHoldCycles s = 0" "cyclesWithoutKey s = of_nat 256"
    by blast
  from all [of 255] obtain s2 where
    r2: "run ?c (quiet_frame_starts 255 0) = Some s2" and
    c2: "quiet_starts_seen ?c (quiet_frame_starts 255 0) = 255" and
    f2: "key_to_send s2 = 0" "keyHoldCycles s2 = 0" "cyclesWithoutKey s2 = of_nat 255"
    by blast
  have z: "cyclesWithoutKey s = 0" using f(3) by simp
  have no: "fst (sendKey CHR ''5'' 1 s) = False"
    using z by (simp add: sendKey_def readyForKeyPress_def)
  have w2: "cyclesWithoutKey s2 = 255" using f2(3) by simp
  have yes: "fst (sendKey CHR ''5'' 1 s2) = True"
    using w2 f2(2) by (simp add: sendKey_def readyForKeyPress_def getKeyValue_def Let_def)
  show ?thesis
    using r c f(1,2) z no r2 c2 yes by simp
qed

section \<open>A request accepted in an interrupted frame\<close>

text \<open>
  C5: a request accepted with hold-cycle count \<open>n\<close> is to be transmitted in the transmit
  windows of \<open>n\<close> frames. The idle-gap test (lines 446-458) resets the frame position
  but not \<open>transmitting\<close>, so a frame interrupted after its 7th bit leaves the flag
  set. In the reachable object \<open>interrupted_frame\<close> the flag is set at frame position 1
  while no key is pending; \<open>sendKey('1', 1)\<close> is accepted there, and the rest of that
  frame consumes the request: the frame completes with the key code and the counter
  cleared, and the line was driven once (at position 7), where the pattern of \<open>'1'\<close>
  drives it twice (positions 1 and 7). No later frame transmits the key.
\<close>

theorem key_request_in_interrupted_frame:
  "reachable interrupted_frame \<and>
   transmitting interrupted_frame \<and> synchronized interrupted_frame \<and>
   controller_bits_read interrupted_frame = 1 \<and>
   key_to_send interrupted_frame = 0 \<and> keyHoldCycles interrupted_frame = 0 \<and>
   fst (sendKey CHR ''1'' 1 interrupted_frame) \<and>
   drive_events interrupted_frame = [PinMode 17 OUTPUT, PinMode 17 OUTPUT] \<and>
   map_option bTransmissionEnd
     (run (snd (sendKey CHR ''1'' 1 interrupted_frame))
        (example_cycles 114900 (replicate 15 (True, False, False)))) = Some True \<and>
   map_option key_to_send
     (run (snd (sendKey CHR ''1'' 1 interrupted_frame))
        (example_cycles 114900 (replicate 15 (True, False, False)))) = Some 0 \<and>
   map_option keyHoldCycles
     (run (snd (sendKey CHR ''1'' 1 interrupted_frame))
        (example_cycles 114900 (replicate 15 (True, False, False)))) = Some 0 \<and>
   map_option drive_events
     (run (snd (sendKey CHR ''1'' 1 interrupted_frame))
        (example_cycles 114900 (replicate 15 (True, False, False)))) =
     Some [PinMode 17 OUTPUT, PinMode 17 OUTPUT, PinMode 17 OUTPUT] \<and>
   filter is_drive (drive_pattern 17 (getKeyValue CHR ''1'')) =
     [PinMode 17 OUTPUT, PinMode 17 OUTPUT]"
proof -
  have "map_option synchronized
      (run (PC1550_ctor 17 18 15 0)
         (example_frame 26500 False False (replicate 15 (True, False, False)))) = Some False"
    by code_simp
  then have r1: "run (PC1550_ctor 17 18 15 0)
         (example_frame 26500 False False (replicate 15 (True, False, False))) =
       Some after_quiet_frame"
    by (auto simp add: after_quiet_frame_def)
  have a1: "reachable after_quiet_frame"
    by (rule reachable_run [OF reachable.ctor r1])
  have "map_option synchronized
      (run (snd (sendKey CHR ''5'' 1 after_quiet_frame))
         (example_frame 77500 False False (replicate 6 (True, False, False)) @
          [poll False True False 113600, poll True False False 114100])) = Some True"
    unfolding after_quiet_frame_def by code_simp
  then have r2: "run (snd (sendKey CHR ''5'' 1 after_quiet_frame))
         (example_frame 77500 False False (replicate 6 (True, False, False)) @
          [poll False True False 113600, poll True False False 114100]) =
       Some interrupted_frame"
    by (auto simp add: interrupted_frame_def)
  have a2: "reachable interrupted_frame"
    by (rule reachable_run [OF reachable.key [OF a1] r2])
  have e: "transmitting interrupted_frame" "synchronized interrupted_frame"
    "controller_bits_read interrupted_frame = 1"
    "key_to_send interrupted_frame = 0" "keyHoldCycles interrupted_frame = 0"
    "fst (sendKey CHR ''1'' 1 interrupted_frame)"
    "drive_events interrupted_frame = [PinMode 17 OUTPUT, PinMode 17 OUTPUT]"
    unfolding interrupted_frame_def after_quiet_frame_def by code_simp+
  have f: "map_option bTransmissionEnd
     (run (snd (sendKey CHR ''1'' 1 interrupted_frame))
        (example_cycles 114900 (replicate 15 (True, False, False)))) = Some True"
    "map_option key_to_send
     (run (snd (sendKey CHR ''1'' 1 interrupted_frame))
        (example_cycles 114900 (replicate 15 (True, False, False)))) = Some 0"
    "map_option keyHoldCycles
     (run (snd (sendKey CHR ''1'' 1 interrupted_frame))
        (example_cycles 114900 (replicate 15 (True, False, False)))) = Some 0"
    "map_option drive_events
     (run (snd (sendKey CHR ''1'' 1 interrupted_frame))
        (example_cycles 114900 (replicate 15 (True, False, False)))) =
     Some [PinMode 17 OUTPUT, PinMode 17 OUTPUT, PinMode 17 OUTPUT]"
    unfolding interrupted_frame_def after_quiet_frame_def by code_simp+
  have g: "filter is_drive (drive_pattern 17 (getKeyValue CHR ''1'')) =
     [PinMode 17 OUTPUT, PinMode 17 OUTPUT]"
    by code_simp
  from a2 e f g show ?thesis by blast
qed

end
